theory Spec2Isabelle
  imports Main "HOL-Library.Word" "HOL-Library.Sublist" "HOL-Library.AList"
begin

unbundle bit_operations_syntax

section \<open>Data model of \<^verbatim>\<open>sdk/helper/certutil/cieps.go\<close>\<close>

text \<open>
  A Go \<^verbatim>\<open>string\<close> is a sequence of bytes and is modelled as \<^typ>\<open>string\<close>
  (a list of 8-bit characters). A \<^verbatim>\<open>[]byte\<close> holding binary data (DER) is a list
  of 8-bit words.
\<close>

type_synonym byte = "8 word"

text \<open>
  \<^verbatim>\<open>x509.Certificate\<close>: only the field \<^verbatim>\<open>Raw\<close> is read by this package.
\<close>

record x509_Certificate =
  Raw :: "byte list"

text \<open>
  A value of type \<^verbatim>\<open>interface{}\<close> as it occurs in the request maps. \<open>GoNil\<close> is the
  nil interface value.
\<close>

datatype go_value =
    GoNil
  | GoBool bool
  | GoString string
  | GoInt int
  | GoNumber string
  | GoSlice "go_value list"
  | GoMap "(string \<times> go_value) list"

text \<open>What \<^verbatim>\<open>%T\<close> prints for such a value.\<close>

fun go_type_name :: "go_value \<Rightarrow> string" where
  "go_type_name GoNil = ''<nil>''"
| "go_type_name (GoBool _) = ''bool''"
| "go_type_name (GoString _) = ''string''"
| "go_type_name (GoInt _) = ''int''"
| "go_type_name (GoNumber _) = ''json.Number''"
| "go_type_name (GoSlice _) = ''[]interface {}''"
| "go_type_name (GoMap _) = ''map[string]interface {}''"

text \<open>\<^verbatim>\<open>URLEntries\<close> is declared in another file of the package.\<close>

typedecl URLEntries

record CIEPSIssuanceConfig =
  AIAValues :: "URLEntries option"
  LeafNotAfterBehavior :: string
  MountDefaultTTL :: string
  MountMaxTTL :: string

record CIEPSVaultParams =
  PolicyName :: string
  Mount :: string
  Namespace :: string
  IsPerfStandby :: bool
  IsPRSecondary :: bool
  IssuanceMode :: string
  GeneratedKey :: bool
  IssuerName :: string
  IssuerID :: string
  IssuerCert :: string
  Config :: CIEPSIssuanceConfig

text \<open>
  The request. \<open>'csr\<close> stands for \<^verbatim>\<open>x509.CertificateRequest\<close>, whose contents this
  package never inspects; the pointer \<^verbatim>\<open>ParsedCSR\<close> is an option.
\<close>

record 'csr CIEPSRequest =
  Version :: int
  UUID :: string
  Sync :: bool
  UserRequestKV :: "string \<rightharpoonup> go_value"
  IdentityRequestKV :: "string \<rightharpoonup> go_value"
  ACMERequestKV :: "string \<rightharpoonup> go_value"
  VaultRequestKV :: CIEPSVaultParams
  ParsedCSR :: "'csr option"

record CIEPSResponse =
  RespUUID :: string
  Error :: string
  Warnings :: "string list"
  Certificate :: string
  ParsedCertificate :: "x509_Certificate option"
  IssuerRef :: string
  StoreCert :: bool
  GenerateLease :: bool

text \<open>
  The errors built with \<^verbatim>\<open>fmt.Errorf\<close>, one constructor per message:
  \<^item> \<open>MissingCSR\<close>: missing expected 'csr' attribute on the request
  \<^item> \<open>UnexpectedCSRType t\<close>: unexpected type of 'csr' attribute: \<open>t\<close>
  \<^item> \<open>EmptyCSR\<close>: unexpectedly empty 'csr' attribute on the request
  \<^item> \<open>TrailingData n\<close>: failed to decode 'csr': \<open>n\<close> bytes of trailing data after PEM block
  \<^item> \<open>PEMDecodeFailed\<close>: failed to decode 'csr' PEM block
  \<^item> \<open>ParseCSRFailed e\<close>: failed to parse certificate request: \<open>e\<close>
  \<^item> \<open>NoCertificatePresent\<close>: no certificate present
  \<^item> \<open>PEMNoBody\<close>: failed to generate PEM: no body
\<close>

datatype error =
    MissingCSR
  | UnexpectedCSRType string
  | EmptyCSR
  | TrailingData nat
  | PEMDecodeFailed
  | ParseCSRFailed string
  | NoCertificatePresent
  | PEMNoBody

section \<open>\<^verbatim>\<open>encoding/base64\<close>: the standard encoding\<close>

definition encodeStd :: string where
  "encodeStd = ''ABCDEFGHIJKLMNOPQRSTUVWXYZabcdefghijklmnopqrstuvwxyz0123456789+/''"

definition padChar :: char where
  "padChar = CHR ''=''"

text \<open>
  \<^verbatim>\<open>enc.encode[val>>k&0x3F]\<close>: the index is below 64, so the read is in range.
\<close>

definition enc_at :: "32 word \<Rightarrow> nat \<Rightarrow> char" where
  "enc_at val k = encodeStd ! unat (drop_bit k val AND 0x3F)"

text \<open>
  \<^verbatim>\<open>Encoding.Encode\<close>: three source bytes give four characters; a remainder of one or
  two bytes gives two or three characters and padding.
\<close>

fun b64_Encode :: "byte list \<Rightarrow> string" where
  "b64_Encode (a # b # c # src) =
     (let val = push_bit 16 (ucast a) OR push_bit 8 (ucast b) OR ucast c
      in [enc_at val 18, enc_at val 12, enc_at val 6, enc_at val 0] @ b64_Encode src)"
| "b64_Encode [a, b] =
     (let val = push_bit 16 (ucast a) OR push_bit 8 (ucast b)
      in [enc_at val 18, enc_at val 12, enc_at val 6, padChar])"
| "b64_Encode [a] =
     (let val = push_bit 16 (ucast a)
      in [enc_at val 18, enc_at val 12, padChar, padChar])"
| "b64_Encode [] = []"

section \<open>\<^verbatim>\<open>encoding/pem\<close>: encoding\<close>

definition pemLineLength :: nat where
  "pemLineLength = 64"

definition nl :: string where
  "nl = [CHR 0x0A]"

text \<open>
  \<^verbatim>\<open>lineBreaker\<close>: every full line of 64 characters is written with a newline after it;
  \<^verbatim>\<open>Close\<close> writes what is left, if anything, with a newline.
\<close>

function lineBreaker :: "string \<Rightarrow> string" where
  "lineBreaker b =
     (if length b < pemLineLength then (if b = [] then [] else b @ nl)
      else take pemLineLength b @ nl @ lineBreaker (drop pemLineLength b))"
  by pat_completeness auto
termination
  by (relation "measure length") (auto simp: pemLineLength_def)

declare lineBreaker.simps [simp del]

text \<open>
  \<^verbatim>\<open>pem.EncodeToMemory\<close> for a block that has a type and bytes and no headers, which
  is how \<^verbatim>\<open>MarshalCertificate\<close> builds its block.
\<close>

definition pem_EncodeToMemory :: "string \<Rightarrow> byte list \<Rightarrow> string" where
  "pem_EncodeToMemory typ bytes =
     ''-----BEGIN '' @ typ @ ''-----'' @ nl
     @ lineBreaker (b64_Encode bytes)
     @ ''-----END '' @ typ @ ''-----'' @ nl"

section \<open>\<^verbatim>\<open>encoding/base64\<close>: decoding\<close>

text \<open>
  \<^verbatim>\<open>decodeMap\<close> is filled with \<open>0xFF\<close> and then, for each position \<open>i\<close> of the
  alphabet, the entry of the character at \<open>i\<close> is set to \<open>i\<close>.
\<close>

fun alphabet_pos :: "string \<Rightarrow> char \<Rightarrow> nat option" where
  "alphabet_pos [] c = None"
| "alphabet_pos (x # xs) c = (if x = c then Some 0 else map_option Suc (alphabet_pos xs c))"

definition decodeMap :: "char \<Rightarrow> byte" where
  "decodeMap c = (case alphabet_pos encodeStd c of None \<Rightarrow> 0xFF | Some i \<Rightarrow> of_nat i)"

definition is_newline :: "char \<Rightarrow> bool" where
  "is_newline c \<longleftrightarrow> c = CHR 0x0A \<or> c = CHR 0x0D"

text \<open>
  The end of \<^verbatim>\<open>decodeQuantum\<close>: the four 6-bit values of \<^verbatim>\<open>dbuf\<close> (zero where
  none was read) are packed into 24 bits and the first \<open>dlen - 1\<close> bytes are written.
\<close>

definition dbuf_val :: "byte \<Rightarrow> byte \<Rightarrow> byte \<Rightarrow> byte \<Rightarrow> 32 word" where
  "dbuf_val d0 d1 d2 d3 =
     push_bit 18 (ucast d0) OR push_bit 12 (ucast d1) OR push_bit 6 (ucast d2) OR ucast d3"

definition val_bytes :: "32 word \<Rightarrow> byte list" where
  "val_bytes val = [ucast (drop_bit 16 val), ucast (drop_bit 8 val), ucast val]"

fun quantum_out :: "byte list \<Rightarrow> byte list" where
  "quantum_out [d0, d1, d2, d3] = val_bytes (dbuf_val d0 d1 d2 d3)"
| "quantum_out [d0, d1, d2] = take 2 (val_bytes (dbuf_val d0 d1 d2 0))"
| "quantum_out [d0, d1] = take 1 (val_bytes (dbuf_val d0 d1 0 0))"
| "quantum_out _ = []"

text \<open>After the padding: only newlines may follow, anything else is trailing garbage.\<close>

definition after_padding :: "byte list \<Rightarrow> string \<Rightarrow> (byte list \<times> string) option" where
  "after_padding dbuf src =
     (if dropWhile is_newline src \<noteq> [] then None else Some (quantum_out dbuf, []))"

text \<open>
  \<^verbatim>\<open>decodeQuantum\<close> for the padded, non-strict standard encoding. \<open>dbuf\<close> holds the
  \<open>j\<close> values read so far, \<open>src\<close> is the input from \<^verbatim>\<open>si\<close> on. The result is the
  bytes of this quantum and the input left, or \<open>None\<close> where the Go function returns
  an error.
\<close>

fun decodeQuantum :: "byte list \<Rightarrow> string \<Rightarrow> (byte list \<times> string) option" where
  "decodeQuantum dbuf [] = (if length dbuf = 0 then Some ([], []) else None)"
| "decodeQuantum dbuf (c # src) =
     (let out = decodeMap c in
      if out \<noteq> 0xFF then
        (if length dbuf = 3 then Some (quantum_out (dbuf @ [out]), src)
         else decodeQuantum (dbuf @ [out]) src)
      else if is_newline c then decodeQuantum dbuf src
      else if c \<noteq> padChar then None
      else if length dbuf = 0 \<or> length dbuf = 1 then None
      else if length dbuf = 2 then
        (case dropWhile is_newline src of
           [] \<Rightarrow> None
         | d # src' \<Rightarrow> if d \<noteq> padChar then None else after_padding dbuf src')
      else after_padding dbuf src)"

lemma decodeQuantum_length:
  "decodeQuantum dbuf src = Some (out, src') \<Longrightarrow> src \<noteq> [] \<Longrightarrow> length src' < length src"
proof (induction dbuf src rule: decodeQuantum.induct)
  case (1 dbuf)
  then show ?case by simp
next
  case (2 dbuf c src)
  have tail: "length r < Suc (length src)"
    if "decodeQuantum d src = Some (out, r)" and
       "\<And>r. decodeQuantum d src = Some (out, r) \<Longrightarrow> src \<noteq> [] \<Longrightarrow> length r < length src"
    for d r
    using that by (cases "src = []") (auto split: if_splits)
  from "2.prems" "2.IH" show ?case
    by (auto simp: Let_def after_padding_def split: if_splits list.splits dest: tail)
qed

text \<open>\<^verbatim>\<open>Encoding.Decode\<close>: quantum after quantum until the input is used up.\<close>

function b64_Decode :: "string \<Rightarrow> byte list option" where
  "b64_Decode src =
     (if length src = 0 then Some []
      else case decodeQuantum [] src of
             None \<Rightarrow> None
           | Some (out, src') \<Rightarrow> map_option (\<lambda>r. out @ r) (b64_Decode src'))"
  by pat_completeness auto
termination
  by (relation "measure length") (auto dest: decodeQuantum_length)

declare b64_Decode.simps [simp del]

section \<open>\<^verbatim>\<open>encoding/pem\<close>: decoding\<close>

record pem_Block =
  Type :: string
  Headers :: "(string \<times> string) list"
  Bytes :: "byte list"

definition pemStart :: string where
  "pemStart = CHR 0x0A # ''-----BEGIN ''"

definition pemEnd :: string where
  "pemEnd = CHR 0x0A # ''-----END ''"

definition pemEndOfLine :: string where
  "pemEndOfLine = ''-----''"

definition colon :: string where
  "colon = '':''"

text \<open>\<^verbatim>\<open>bytes.Index\<close>: the first position where \<open>sep\<close> occurs, \<open>None\<close> for \<open>-1\<close>.\<close>

fun bytes_Index :: "string \<Rightarrow> string \<Rightarrow> nat option" where
  "bytes_Index [] sep = (if sep = [] then Some 0 else None)"
| "bytes_Index (x # xs) sep =
     (if prefix sep (x # xs) then Some 0 else map_option Suc (bytes_Index xs sep))"

text \<open>\<^verbatim>\<open>bytes.Cut\<close>: the parts before and after the first \<open>sep\<close>, if there is one.\<close>

definition bytes_Cut :: "string \<Rightarrow> string \<Rightarrow> (string \<times> string) option" where
  "bytes_Cut s sep =
     (case bytes_Index s sep of
        None \<Rightarrow> None
      | Some i \<Rightarrow> Some (take i s, drop (i + length sep) s))"

definition bytes_TrimRight :: "string \<Rightarrow> string \<Rightarrow> string" where
  "bytes_TrimRight s cutset = rev (dropWhile (\<lambda>c. c \<in> set cutset) (rev s))"

text \<open>
  \<^verbatim>\<open>bytes.TrimSpace\<close> on ASCII white space. (Go also trims the UTF-8 encodings of
  Unicode white space; it is used on header keys and values only.)
\<close>

definition asciiSpace :: string where
  "asciiSpace = [CHR 0x09, CHR 0x0A, CHR 0x0B, CHR 0x0C, CHR 0x0D, CHR 0x20]"

definition bytes_TrimSpace :: "string \<Rightarrow> string" where
  "bytes_TrimSpace s =
     rev (dropWhile (\<lambda>c. c \<in> set asciiSpace) (rev (dropWhile (\<lambda>c. c \<in> set asciiSpace) s)))"

text \<open>
  \<^verbatim>\<open>getLine\<close>: the first line without its line end (\<^verbatim>\<open>\n\<close> or \<^verbatim>\<open>\r\n\<close>) and without
  trailing blanks and tabs, and what follows the line.
\<close>

definition getLine :: "string \<Rightarrow> string \<times> string" where
  "getLine data =
     (case bytes_Index data nl of
        None \<Rightarrow> (bytes_TrimRight data [CHR 0x20, CHR 0x09], [])
      | Some i \<Rightarrow>
          (bytes_TrimRight
             (take (if 0 < i \<and> data ! (i - 1) = CHR 0x0D then i - 1 else i) data)
             [CHR 0x20, CHR 0x09],
           drop (i + 1) data))"

definition removeSpacesAndTabs :: "string \<Rightarrow> string" where
  "removeSpacesAndTabs data = filter (\<lambda>b. \<not> (b = CHR 0x20 \<or> b = CHR 0x09)) data"

lemma bytes_Index_le: "bytes_Index s sep = Some i \<Longrightarrow> i + length sep \<le> length s"
proof (induction s arbitrary: i)
  case Nil
  then show ?case by (simp split: if_splits)
next
  case (Cons x xs)
  then show ?case
    by (auto split: if_splits dest: prefix_length_le)
qed

lemma getLine_length_le: "length (snd (getLine data)) \<le> length data"
  by (simp add: getLine_def split: option.splits)

lemma getLine_length_less: "data \<noteq> [] \<Longrightarrow> length (snd (getLine data)) < length data"
  by (auto simp: getLine_def split: option.splits)

text \<open>
  The inner loop of \<^verbatim>\<open>Decode\<close> that reads header lines. \<open>None\<close> is the
  \<^verbatim>\<open>return nil, data\<close> taken when the input ends inside the headers.
\<close>

function read_headers ::
  "(string \<times> string) list \<Rightarrow> string \<Rightarrow> ((string \<times> string) list \<times> string) option" where
  "read_headers hs rest =
     (if length rest = 0 then None
      else case bytes_Cut (fst (getLine rest)) colon of
             None \<Rightarrow> Some (hs, rest)
           | Some (key, val) \<Rightarrow>
               read_headers (AList.update (bytes_TrimSpace key) (bytes_TrimSpace val) hs)
                 (snd (getLine rest)))"
  by pat_completeness auto
termination
  by (relation "measure (\<lambda>(hs, rest). length rest)") (auto intro: getLine_length_less)

declare read_headers.simps [simp del]

text \<open>The search for the BEGIN marker: the input after it, if it is found.\<close>

definition find_start :: "string \<Rightarrow> string option" where
  "find_start rest =
     (if prefix (tl pemStart) rest then Some (drop (length pemStart - 1) rest)
      else map_option snd (bytes_Cut rest pemStart))"

text \<open>\<^verbatim>\<open>endIndex\<close> and \<^verbatim>\<open>endTrailerIndex\<close>; \<open>None\<close> where \<^verbatim>\<open>endIndex < 0\<close>.\<close>

definition find_end :: "(string \<times> string) list \<Rightarrow> string \<Rightarrow> (nat \<times> nat) option" where
  "find_end hs rest =
     (if length hs = 0 \<and> prefix (tl pemEnd) rest then Some (0, length pemEnd - 1)
      else map_option (\<lambda>i. (i, i + length pemEnd)) (bytes_Index rest pemEnd))"

text \<open>
  From the END line to the result of one attempt: \<open>None\<close> is a \<^verbatim>\<open>continue\<close>,
  otherwise the block and the input after the END line.
\<close>

definition decode_body ::
  "string \<Rightarrow> (string \<times> string) list \<Rightarrow> string \<Rightarrow> (pem_Block \<times> string) option" where
  "decode_body typeLine hs rest =
     (case find_end hs rest of
        None \<Rightarrow> None
      | Some (endIndex, endTrailerIndex) \<Rightarrow>
          let endTrailer = drop endTrailerIndex rest;
              endTrailerLen = length typeLine + length pemEndOfLine
          in if length endTrailer < endTrailerLen then None
             else
               let restOfEndLine = drop endTrailerLen endTrailer;
                   endTrailer = take endTrailerLen endTrailer
               in if \<not> prefix typeLine endTrailer \<or> \<not> suffix pemEndOfLine endTrailer then None
                  else if length (fst (getLine restOfEndLine)) \<noteq> 0 then None
                  else (case b64_Decode (removeSpacesAndTabs (take endIndex rest)) of
                          None \<Rightarrow> None
                        | Some bytes \<Rightarrow>
                            Some (\<lparr>Type = typeLine, Headers = hs, Bytes = bytes\<rparr>,
                                  snd (getLine (drop (endIndex + length pemEnd - 1) rest)))))"

text \<open>One pass through the body of the outer loop of \<^verbatim>\<open>Decode\<close>.\<close>

datatype decode_step = Return "pem_Block option \<times> string" | Continue string

definition decode_iter :: "string \<Rightarrow> string \<Rightarrow> decode_step" where
  "decode_iter data rest =
     (case find_start rest of
        None \<Rightarrow> Return (None, data)
      | Some rest1 \<Rightarrow>
          let typeLine = fst (getLine rest1); rest2 = snd (getLine rest1)
          in if \<not> suffix pemEndOfLine typeLine then Continue rest2
             else
               let typeLine = take (length typeLine - length pemEndOfLine) typeLine
               in (case read_headers [] rest2 of
                     None \<Rightarrow> Return (None, data)
                   | Some (hs, rest3) \<Rightarrow>
                       (case decode_body typeLine hs rest3 of
                          None \<Rightarrow> Continue rest3
                        | Some (p, rest4) \<Rightarrow> Return (Some p, rest4))))"

lemma find_start_length: "find_start rest = Some rest1 \<Longrightarrow> length rest1 < length rest"
  by (auto simp: find_start_def bytes_Cut_def pemStart_def
      split: if_splits option.splits dest!: bytes_Index_le prefix_length_le)

lemma read_headers_length: "read_headers hs rest = Some (hs', rest') \<Longrightarrow> length rest' \<le> length rest"
proof (induction hs rest rule: read_headers.induct)
  case (1 hs rest)
  show ?case
  proof (cases "bytes_Cut (fst (getLine rest)) colon")
    case None
    with "1.prems" show ?thesis
      by (subst (asm) read_headers.simps) (simp split: if_splits)
  next
    case (Some kv)
    obtain key val where kv: "kv = (key, val)" by (cases kv)
    from "1.prems" have ne: "length rest \<noteq> 0"
      by (subst (asm) read_headers.simps) (simp split: if_splits)
    with "1.prems" Some kv have
      "read_headers (AList.update (bytes_TrimSpace key) (bytes_TrimSpace val) hs)
         (snd (getLine rest)) = Some (hs', rest')"
      by (subst (asm) read_headers.simps) simp
    with "1.IH" [OF ne Some [unfolded kv]] have "length rest' \<le> length (snd (getLine rest))"
      by simp
    with getLine_length_le [of rest] show ?thesis by simp
  qed
qed

lemma decode_iter_length: "decode_iter data rest = Continue rest' \<Longrightarrow> length rest' < length rest"
  by (auto simp: decode_iter_def Let_def
      split: option.splits if_splits prod.splits
      dest!: find_start_length read_headers_length
      intro: le_less_trans [OF getLine_length_le] le_less_trans)

function Decode_loop :: "string \<Rightarrow> string \<Rightarrow> pem_Block option \<times> string" where
  "Decode_loop data rest =
     (case decode_iter data rest of
        Return r \<Rightarrow> r
      | Continue rest' \<Rightarrow> Decode_loop data rest')"
  by pat_completeness auto
termination
  by (relation "measure (\<lambda>(data, rest). length rest)") (auto dest: decode_iter_length)

declare Decode_loop.simps [simp del]

text \<open>\<^verbatim>\<open>pem.Decode\<close>: the first block that decodes, and the input after it.\<close>

definition pem_Decode :: "string \<Rightarrow> pem_Block option \<times> string" where
  "pem_Decode data = Decode_loop data data"

section \<open>\<^verbatim>\<open>MarshalCertificate\<close>\<close>

text \<open>
  The method has a pointer receiver: the model takes the response and returns the error
  (\<open>None\<close> for \<^verbatim>\<open>nil\<close>) with the response as the call leaves it.
\<close>

definition MarshalCertificate :: "CIEPSResponse \<Rightarrow> error option \<times> CIEPSResponse" where
  "MarshalCertificate c =
     (case ParsedCertificate c of
        None \<Rightarrow> (Some NoCertificatePresent, c)
      | Some cert \<Rightarrow>
          if length (Raw cert) = 0 then (Some NoCertificatePresent, c)
          else
            let pem = pem_EncodeToMemory ''CERTIFICATE'' (Raw cert)
            in if length pem = 0 then (Some PEMNoBody, c)
               else (None, c\<lparr>Certificate := pem\<rparr>))"

section \<open>\<^verbatim>\<open>ParseUserCSR\<close>\<close>

text \<open>
  \<^verbatim>\<open>x509.ParseCertificateRequest\<close> is a parameter: it maps the DER bytes to an error
  message or to a certificate request.
\<close>

definition ParseUserCSR ::
  "(byte list \<Rightarrow> string + 'csr) \<Rightarrow> 'csr CIEPSRequest \<Rightarrow> error option \<times> 'csr CIEPSRequest" where
  "ParseUserCSR x509_ParseCertificateRequest req =
     (case UserRequestKV req ''csr'' of
        None \<Rightarrow> (Some MissingCSR, req)
      | Some csrValueRaw \<Rightarrow>
          (case csrValueRaw of
             GoString csrValue \<Rightarrow>
               if csrValue = [] then (Some EmptyCSR, req)
               else
                 let block = fst (pem_Decode csrValue); rest = snd (pem_Decode csrValue)
                 in if length rest > 0 then (Some (TrailingData (length rest)), req)
                    else
                      (case block of
                         None \<Rightarrow> (Some PEMDecodeFailed, req)
                       | Some blk \<Rightarrow>
                           (case x509_ParseCertificateRequest (Bytes blk) of
                              Inl err \<Rightarrow> (Some (ParseCSRFailed err), req)
                            | Inr csr \<Rightarrow> (None, req\<lparr>ParsedCSR := Some csr\<rparr>)))
           | _ \<Rightarrow> (Some (UnexpectedCSRType (go_type_name csrValueRaw)), req)))"

section \<open>Struct tags and the JSON wire form\<close>

text \<open>
  The structs are written to and read from JSON by \<^verbatim>\<open>encoding/json\<close>, which goes by the
  \<^verbatim>\<open>json\<close> tag of each struct field. A JSON text is modelled by its syntax tree; the
  members of an object are kept in the order of the text, and a number keeps its literal.
\<close>

datatype json =
    JNull
  | JBool bool
  | JNumber string
  | JString string
  | JArray "json list"
  | JObject "(string \<times> json) list"

text \<open>
  Values behind the pointer fields, of types declared outside this file.
\<close>

datatype 'csr opaque =
    OCertificateRequest 'csr
  | OCertificate x509_Certificate
  | OURLEntries URLEntries

text \<open>
  A struct as reflection sees it: for each field, in the order of the declaration, its Go
  name, its \<^verbatim>\<open>json\<close> tag and its value. A nil map or slice and an empty one are not told
  apart (both have length 0).
\<close>

datatype 'csr rvalue =
    RBool bool
  | RInt int
  | RString string
  | RStrings "string list"
  | RMap "string \<rightharpoonup> go_value"
  | RStruct "(string \<times> string \<times> 'csr rvalue) list"
  | RPtr "'csr opaque option"

type_synonym 'csr fields = "(string \<times> string \<times> 'csr rvalue) list"

text \<open>
  \<^verbatim>\<open>parseTag\<close>: the name is the tag up to the first comma, the options are what follows
  it.
\<close>

definition tag_name :: "string \<Rightarrow> string" where
  "tag_name tag = takeWhile (\<lambda>c. c \<noteq> CHR '','') tag"

definition tag_options :: "string \<Rightarrow> string" where
  "tag_options tag = drop 1 (dropWhile (\<lambda>c. c \<noteq> CHR '','') tag)"

text \<open>\<^verbatim>\<open>tagOptions.Contains\<close>: whether the comma-separated options hold the given one.\<close>

function options_Contains :: "string \<Rightarrow> string \<Rightarrow> bool" where
  "options_Contains opts optionName =
     (if length opts = 0 then False
      else if takeWhile (\<lambda>c. c \<noteq> CHR '','') opts = optionName then True
      else options_Contains (drop 1 (dropWhile (\<lambda>c. c \<noteq> CHR '','') opts)) optionName)"
  by pat_completeness auto
termination
proof (relation "measure (\<lambda>(opts, n). length opts)")
  fix opts optionName :: string
  assume "\<not> length opts = 0"
  moreover have "length (dropWhile (\<lambda>c. c \<noteq> CHR '','') opts) \<le> length opts"
    by (rule length_dropWhile_le)
  ultimately have "length (dropWhile (\<lambda>c. c \<noteq> CHR '','') opts) - 1 < length opts"
    by arith
  then show "((drop 1 (dropWhile (\<lambda>c. c \<noteq> CHR '','') opts), optionName), opts, optionName)
      \<in> measure (\<lambda>(opts, n). length opts)"
    by simp
qed simp

declare options_Contains.simps [simp del]

text \<open>
  The member name of a field and its \<^verbatim>\<open>omitempty\<close> flag; \<open>None\<close> for a field with the
  tag \<^verbatim>\<open>-\<close>, which \<^verbatim>\<open>encoding/json\<close> leaves out in both directions. A tag without a name
  gives the Go name of the field. (All names in the tags of this file are valid names, so
  \<^verbatim>\<open>isValidTag\<close> is not modelled.)
\<close>

definition json_key :: "string \<Rightarrow> string \<Rightarrow> (string \<times> bool) option" where
  "json_key field tag =
     (if tag = ''-'' then None
      else Some (if tag_name tag = [] then field else tag_name tag,
                 options_Contains (tag_options tag) ''omitempty''))"

text \<open>\<^verbatim>\<open>isEmptyValue\<close>, which decides what \<^verbatim>\<open>omitempty\<close> omits.\<close>

fun isEmptyValue :: "'csr rvalue \<Rightarrow> bool" where
  "isEmptyValue (RBool b) = (\<not> b)"
| "isEmptyValue (RInt n) = (n = 0)"
| "isEmptyValue (RString s) = (length s = 0)"
| "isEmptyValue (RStrings xs) = (length xs = 0)"
| "isEmptyValue (RMap m) = (dom m = {})"
| "isEmptyValue (RStruct fs) = False"
| "isEmptyValue (RPtr p) = (p = None)"

text \<open>
  The members that \<^verbatim>\<open>json.Marshal\<close> writes for a struct: one for every field that has a
  member name and is not omitted as empty, in the order of the fields, with the value of
  the field. (A nested struct is written by the same rule.)
\<close>

fun marshal_fields :: "'csr fields \<Rightarrow> (string \<times> 'csr rvalue) list" where
  "marshal_fields [] = []"
| "marshal_fields ((field, tag, v) # fs) =
     (case json_key field tag of
        None \<Rightarrow> marshal_fields fs
      | Some (key, omitEmpty) \<Rightarrow>
          if omitEmpty \<and> isEmptyValue v then marshal_fields fs
          else (key, v) # marshal_fields fs)"

text \<open>
  A JSON value stored into an \<^verbatim>\<open>interface{}\<close>; a number is kept as its literal, as with
  \<^verbatim>\<open>UseNumber\<close>.
\<close>

fun go_of_json :: "json \<Rightarrow> go_value" where
  "go_of_json JNull = GoNil"
| "go_of_json (JBool b) = GoBool b"
| "go_of_json (JNumber n) = GoNumber n"
| "go_of_json (JString s) = GoString s"
| "go_of_json (JArray xs) = GoSlice (map go_of_json xs)"
| "go_of_json (JObject ms) = GoMap (map (\<lambda>(k, v). (k, go_of_json v)) ms)"


text \<open>
  Reading JSON into a struct. Each member of the object is looked up among the member
  names of the fields; names are compared exactly, as the list of names in the spec
  reads (\<^verbatim>\<open>encoding/json\<close> itself would also accept a name that differs only in the case of
  its letters). A member without a field is skipped, or is an error when unknown fields
  are disallowed (\<open>strict\<close>, Go's \<^verbatim>\<open>DisallowUnknownFields\<close>).
\<close>

datatype json_error =
    UnknownField string
  | UnmarshalTypeError string

text \<open>The field with the given member name: its Go name and its value.\<close>

fun find_field :: "'csr fields \<Rightarrow> string \<Rightarrow> (string \<times> 'csr rvalue) option" where
  "find_field [] key = None"
| "find_field ((field, tag, v) # fs) key =
     (case json_key field tag of
        None \<Rightarrow> find_field fs key
      | Some (k, omitEmpty) \<Rightarrow> if k = key then Some (field, v) else find_field fs key)"

fun set_field :: "'csr fields \<Rightarrow> string \<Rightarrow> 'csr rvalue \<Rightarrow> 'csr fields" where
  "set_field [] field v = []"
| "set_field ((g, tag, old) # fs) field v =
     (if g = field then (g, tag, v) # fs else (g, tag, old) # set_field fs field v)"

fun field_value :: "'csr fields \<Rightarrow> string \<Rightarrow> 'csr rvalue option" where
  "field_value [] field = None"
| "field_value ((g, tag, v) # fs) field = (if g = field then Some v else field_value fs field)"

fun parse_digits :: "string \<Rightarrow> nat \<Rightarrow> nat option" where
  "parse_digits [] acc = Some acc"
| "parse_digits (c # cs) acc =
     (if 48 \<le> (of_char c :: nat) \<and> (of_char c :: nat) \<le> 57
      then parse_digits cs (10 * acc + (of_char c - 48))
      else None)"

definition parse_int :: "string \<Rightarrow> int option" where
  "parse_int s =
     (case s of
        [] \<Rightarrow> None
      | c # cs \<Rightarrow>
          if c = CHR ''-'' then (if cs = [] then None else map_option (\<lambda>n. - int n) (parse_digits cs 0))
          else map_option int (parse_digits s 0))"

fun strings_of_json :: "json list \<Rightarrow> string list option" where
  "strings_of_json [] = Some []"
| "strings_of_json (JString s # xs) = map_option ((#) s) (strings_of_json xs)"
| "strings_of_json (JNull # xs) = map_option ((#) []) (strings_of_json xs)"
| "strings_of_json (_ # xs) = None"

text \<open>
  A JSON value read into a Go value of a given shape, and the members of an object read
  into the fields of a struct. \<open>dec\<close> reads a value behind a pointer to one of the types
  declared elsewhere. \<^verbatim>\<open>null\<close> makes a map, slice or pointer nil and leaves other values
  as they are.
\<close>

fun unmarshal_value ::
  "bool \<Rightarrow> (json \<Rightarrow> 'csr opaque option \<Rightarrow> json_error + 'csr opaque option)
     \<Rightarrow> json \<Rightarrow> 'csr rvalue \<Rightarrow> json_error + 'csr rvalue"
and unmarshal_members ::
  "bool \<Rightarrow> (json \<Rightarrow> 'csr opaque option \<Rightarrow> json_error + 'csr opaque option)
     \<Rightarrow> (string \<times> json) list \<Rightarrow> 'csr fields \<Rightarrow> json_error + 'csr fields"
where
  "unmarshal_value strict dec JNull (RMap m) = Inr (RMap Map.empty)"
| "unmarshal_value strict dec JNull (RStrings xs) = Inr (RStrings [])"
| "unmarshal_value strict dec JNull (RPtr p) = Inr (RPtr None)"
| "unmarshal_value strict dec JNull old = Inr old"
| "unmarshal_value strict dec j (RPtr p) =
     (case dec j p of Inl e \<Rightarrow> Inl e | Inr p' \<Rightarrow> Inr (RPtr p'))"
| "unmarshal_value strict dec (JBool b) (RBool old) = Inr (RBool b)"
| "unmarshal_value strict dec (JString s) (RString old) = Inr (RString s)"
| "unmarshal_value strict dec (JNumber n) (RInt old) =
     (case parse_int n of None \<Rightarrow> Inl (UnmarshalTypeError ''number'') | Some i \<Rightarrow> Inr (RInt i))"
| "unmarshal_value strict dec (JArray xs) (RStrings old) =
     (case strings_of_json xs of
        None \<Rightarrow> Inl (UnmarshalTypeError ''array'')
      | Some ss \<Rightarrow> Inr (RStrings ss))"
| "unmarshal_value strict dec (JObject ms) (RMap m) =
     Inr (RMap (fold (\<lambda>(k, v) m. m(k \<mapsto> go_of_json v)) ms m))"
| "unmarshal_value strict dec (JObject ms) (RStruct fs) =
     (case unmarshal_members strict dec ms fs of
        Inl e \<Rightarrow> Inl e
      | Inr fs' \<Rightarrow> Inr (RStruct fs'))"
| "unmarshal_value strict dec (JBool b) old = Inl (UnmarshalTypeError ''bool'')"
| "unmarshal_value strict dec (JNumber n) old = Inl (UnmarshalTypeError ''number'')"
| "unmarshal_value strict dec (JString s) old = Inl (UnmarshalTypeError ''string'')"
| "unmarshal_value strict dec (JArray xs) old = Inl (UnmarshalTypeError ''array'')"
| "unmarshal_value strict dec (JObject ms) old = Inl (UnmarshalTypeError ''object'')"
| "unmarshal_members strict dec [] fs = Inr fs"
| "unmarshal_members strict dec ((key, v) # ms) fs =
     (case find_field fs key of
        None \<Rightarrow>
          if strict then Inl (UnknownField key) else unmarshal_members strict dec ms fs
      | Some (field, old) \<Rightarrow>
          (case unmarshal_value strict dec v old of
             Inl e \<Rightarrow> Inl e
           | Inr new \<Rightarrow> unmarshal_members strict dec ms (set_field fs field new)))"


text \<open>The four structs of the file with their tags.\<close>

definition reflect_CIEPSIssuanceConfig :: "CIEPSIssuanceConfig \<Rightarrow> 'csr fields" where
  "reflect_CIEPSIssuanceConfig c =
     [(''AIAValues'', ''aia_values'', RPtr (map_option OURLEntries (AIAValues c))),
      (''LeafNotAfterBehavior'', ''leaf_not_after_behavior'', RString (LeafNotAfterBehavior c)),
      (''MountDefaultTTL'', ''mount_default_ttl'', RString (MountDefaultTTL c)),
      (''MountMaxTTL'', ''mount_max_ttl'', RString (MountMaxTTL c))]"

definition reflect_CIEPSVaultParams :: "CIEPSVaultParams \<Rightarrow> 'csr fields" where
  "reflect_CIEPSVaultParams p =
     [(''PolicyName'', ''policy_name,omitempty'', RString (PolicyName p)),
      (''Mount'', ''mount'', RString (Mount p)),
      (''Namespace'', ''ns'', RString (Namespace p)),
      (''IsPerfStandby'', ''vault_is_performance_standby'', RBool (IsPerfStandby p)),
      (''IsPRSecondary'', ''vault_is_performance_secondary'', RBool (IsPRSecondary p)),
      (''IssuanceMode'', ''issuance_mode'', RString (IssuanceMode p)),
      (''GeneratedKey'', ''vault_generated_private_key'', RBool (GeneratedKey p)),
      (''IssuerName'', ''requested_issuer_name'', RString (IssuerName p)),
      (''IssuerID'', ''requested_issuer_id'', RString (IssuerID p)),
      (''IssuerCert'', ''requested_issuer_cert'', RString (IssuerCert p)),
      (''Config'', ''requested_issuance_config'', RStruct (reflect_CIEPSIssuanceConfig (Config p)))]"

definition reflect_CIEPSRequest :: "'csr CIEPSRequest \<Rightarrow> 'csr fields" where
  "reflect_CIEPSRequest req =
     [(''Version'', ''request_version'', RInt (Version req)),
      (''UUID'', ''request_uuid'', RString (UUID req)),
      (''Sync'', ''synchronous'', RBool (Sync req)),
      (''UserRequestKV'', ''user_request_key_values'', RMap (UserRequestKV req)),
      (''IdentityRequestKV'', ''identity_request_key_values,omitempty'', RMap (IdentityRequestKV req)),
      (''ACMERequestKV'', ''acme_request_key_values,omitempty'', RMap (ACMERequestKV req)),
      (''VaultRequestKV'', ''vault_request_values'', RStruct (reflect_CIEPSVaultParams (VaultRequestKV req))),
      (''ParsedCSR'', ''-'', RPtr (map_option OCertificateRequest (ParsedCSR req)))]"

definition reflect_CIEPSResponse :: "CIEPSResponse \<Rightarrow> 'csr fields" where
  "reflect_CIEPSResponse c =
     [(''UUID'', ''request_uuid'', RString (RespUUID c)),
      (''Error'', ''error,omitempty'', RString (Error c)),
      (''Warnings'', ''warnings,omitempty'', RStrings (Warnings c)),
      (''Certificate'', ''certificate'', RString (Certificate c)),
      (''ParsedCertificate'', ''-'', RPtr (map_option OCertificate (ParsedCertificate c))),
      (''IssuerRef'', ''issuer_ref'', RString (IssuerRef c)),
      (''StoreCert'', ''store_certificate'', RBool (StoreCert c)),
      (''GenerateLease'', ''generate_lease'', RBool (GenerateLease c))]"

text \<open>The response that has the given field values.\<close>

definition reify_CIEPSResponse :: "'csr fields \<Rightarrow> CIEPSResponse \<Rightarrow> CIEPSResponse" where
  "reify_CIEPSResponse fs c =
     \<lparr>RespUUID = (case field_value fs ''UUID'' of Some (RString s) \<Rightarrow> s | _ \<Rightarrow> RespUUID c),
      Error = (case field_value fs ''Error'' of Some (RString s) \<Rightarrow> s | _ \<Rightarrow> Error c),
      Warnings = (case field_value fs ''Warnings'' of Some (RStrings ss) \<Rightarrow> ss | _ \<Rightarrow> Warnings c),
      Certificate =
        (case field_value fs ''Certificate'' of Some (RString s) \<Rightarrow> s | _ \<Rightarrow> Certificate c),
      ParsedCertificate =
        (case field_value fs ''ParsedCertificate'' of
           Some (RPtr None) \<Rightarrow> None
         | Some (RPtr (Some (OCertificate cert))) \<Rightarrow> Some cert
         | _ \<Rightarrow> ParsedCertificate c),
      IssuerRef = (case field_value fs ''IssuerRef'' of Some (RString s) \<Rightarrow> s | _ \<Rightarrow> IssuerRef c),
      StoreCert = (case field_value fs ''StoreCert'' of Some (RBool b) \<Rightarrow> b | _ \<Rightarrow> StoreCert c),
      GenerateLease =
        (case field_value fs ''GenerateLease'' of Some (RBool b) \<Rightarrow> b | _ \<Rightarrow> GenerateLease c)\<rparr>"

text \<open>
  Modelled from the spec: the decoding of a \<^verbatim>\<open>CIEPSResponse\<close> from the reply of the
  external service; the code that does it is not in \<^verbatim>\<open>cieps.go\<close>, which only declares
  the struct and says in a comment that unknown fields fail the parse. According to the
  spec the schema is closed: the response is an object, and a member whose name is not in
  the list of response fields fails the decode. The reply is read into the response \<open>c\<close>.
\<close>

definition decode_CIEPSResponse ::
  "(json \<Rightarrow> unit opaque option \<Rightarrow> json_error + unit opaque option)
     \<Rightarrow> json \<Rightarrow> CIEPSResponse \<Rightarrow> json_error + CIEPSResponse" where
  "decode_CIEPSResponse dec j c =
     (case unmarshal_value True dec j (RStruct (reflect_CIEPSResponse c)) of
        Inl e \<Rightarrow> Inl e
      | Inr (RStruct fs) \<Rightarrow> Inr (reify_CIEPSResponse fs c)
      | Inr _ \<Rightarrow> Inr c)"

text \<open>The members of the response and of the request as the spec lists them.\<close>

definition CIEPSResponse_schema :: "string list" where
  "CIEPSResponse_schema =
     [''request_uuid'', ''error'', ''warnings'', ''certificate'', ''issuer_ref'',
      ''store_certificate'', ''generate_lease'']"

definition CIEPSRequest_schema :: "string list" where
  "CIEPSRequest_schema =
     [''request_version'', ''request_uuid'', ''synchronous'', ''user_request_key_values'',
      ''identity_request_key_values'', ''acme_request_key_values'', ''vault_request_values'']"

text \<open>The member names of the fields of a struct.\<close>

fun wire_keys :: "'csr fields \<Rightarrow> string list" where
  "wire_keys [] = []"
| "wire_keys ((field, tag, v) # fs) =
     (case json_key field tag of None \<Rightarrow> wire_keys fs | Some (k, omitEmpty) \<Rightarrow> k # wire_keys fs)"

section \<open>Reference encodings: base64 (RFC 4648) and PEM text (RFC 7468)\<close>

text \<open>
  What a PEM block is, written after the two RFCs and not after the Go code, to compare
  the Go code with. RFC 4648, Table 1, the base64 alphabet: the values 0 to 25 are the
  letters A to Z, 26 to 51 the letters a to z, 52 to 61 the digits 0 to 9, 62 is \<^verbatim>\<open>+\<close> and 63
  is \<^verbatim>\<open>/\<close>.
\<close>

definition rfc4648_char :: "nat \<Rightarrow> char" where
  "rfc4648_char v =
     (if v < 26 then char_of (65 + v)
      else if v < 52 then char_of (71 + v)
      else if v < 62 then char_of (v - 4)
      else if v = 62 then CHR ''+''
      else CHR ''/'')"

text \<open>
  RFC 4648, section 4: three bytes are read as one number of 24 bits and written as four
  characters, one for each group of 6 bits, the highest first. Two bytes left at the end
  are 16 bits, filled up with two zero bits to three groups, and one \<^verbatim>\<open>=\<close> follows; one byte
  left is 8 bits, filled up with four zero bits to two groups, and \<^verbatim>\<open>==\<close> follows.
\<close>

fun rfc4648_encode :: "byte list \<Rightarrow> string" where
  "rfc4648_encode (a # b # c # bs) =
     (let n = unat a * 65536 + unat b * 256 + unat c
      in [rfc4648_char (n div 262144), rfc4648_char (n div 4096 mod 64),
          rfc4648_char (n div 64 mod 64), rfc4648_char (n mod 64)] @ rfc4648_encode bs)"
| "rfc4648_encode [a, b] =
     (let n = (unat a * 256 + unat b) * 4
      in [rfc4648_char (n div 4096), rfc4648_char (n div 64 mod 64), rfc4648_char (n mod 64),
          CHR ''=''])"
| "rfc4648_encode [a] =
     (let n = unat a * 16
      in [rfc4648_char (n div 64), rfc4648_char (n mod 64), CHR ''='', CHR ''=''])"
| "rfc4648_encode [] = []"

text \<open>
  RFC 7468, section 2: the base64 text is wrapped so that every line has exactly 64
  characters, except the last, which has what is left.
\<close>

function rfc7468_lines :: "string \<Rightarrow> string list" where
  "rfc7468_lines s = (if s = [] then [] else take 64 s # rfc7468_lines (drop 64 s))"
  by pat_completeness auto
termination
  by (relation "measure length") auto

declare rfc7468_lines.simps [simp del]

text \<open>
  The block: the BEGIN line with the label, the lines of the body, the END line with the
  same label, each line ended by a line feed.
\<close>

definition rfc7468_encode :: "string \<Rightarrow> byte list \<Rightarrow> string" where
  "rfc7468_encode label der =
     ''-----BEGIN '' @ label @ ''-----'' @ [CHR 0x0A]
     @ concat (map (\<lambda>l. l @ [CHR 0x0A]) (rfc7468_lines (rfc4648_encode der)))
     @ ''-----END '' @ label @ ''-----'' @ [CHR 0x0A]"

section \<open>The dispatcher across the nodes of a cluster\<close>










section \<open>Auxiliary definitions and example values\<close>

text \<open>Whether the type assertion \<^verbatim>\<open>csrValueRaw.(string)\<close> succeeds.\<close>

fun is_GoString :: "go_value \<Rightarrow> bool" where
  "is_GoString (GoString _) = True"
| "is_GoString _ = False"

text \<open>
  A stand-in for \<^verbatim>\<open>x509.ParseCertificateRequest\<close> in the examples: it accepts what starts
  with the tag of an ASN.1 sequence and keeps the bytes as the parsed request.
\<close>

definition example_parser :: "byte list \<Rightarrow> string + byte list" where
  "example_parser der =
     (case der of
        [] \<Rightarrow> Inl ''asn1: syntax error: sequence truncated''
      | b # _ \<Rightarrow> if b = 0x30 then Inr der else Inl ''asn1: structure error'')"

definition example_request :: "(string \<rightharpoonup> go_value) \<Rightarrow> byte list CIEPSRequest" where
  "example_request kv =
     \<lparr>Version = 1, UUID = ''6f1c'', Sync = True,
      UserRequestKV = kv, IdentityRequestKV = Map.empty, ACMERequestKV = Map.empty,
      VaultRequestKV =
        \<lparr>PolicyName = '''', Mount = ''pki/'', Namespace = '''',
         IsPerfStandby = False, IsPRSecondary = False, IssuanceMode = ''sign'',
         GeneratedKey = False, IssuerName = ''default'', IssuerID = ''1'', IssuerCert = '''',
         Config = \<lparr>AIAValues = None, LeafNotAfterBehavior = ''err'',
                    MountDefaultTTL = ''1h'', MountMaxTTL = ''2h''\<rparr>\<rparr>,
      ParsedCSR = None\<rparr>"

definition example_csr :: string where
  "example_csr =
     ''-----BEGIN CERTIFICATE REQUEST-----'' @ nl @ ''MAA='' @ nl
     @ ''-----END CERTIFICATE REQUEST-----'' @ nl"

definition example_response :: "x509_Certificate option \<Rightarrow> CIEPSResponse" where
  "example_response cert =
     \<lparr>RespUUID = ''6f1c'', Error = '''', Warnings = [], Certificate = '''',
      ParsedCertificate = cert, IssuerRef = ''default'', StoreCert = True,
      GenerateLease = False\<rparr>"

text \<open>A reply of the external service, and a reader for pointer fields that leaves them as they are.\<close>

definition example_reply :: json where
  "example_reply =
     JObject [(''request_uuid'', JString ''6f1c''), (''certificate'', JString []),
              (''issuer_ref'', JString ''default''), (''store_certificate'', JBool True),
              (''generate_lease'', JBool False), (''warnings'', JArray [JString ''short ttl''])]"

definition example_dec :: "json \<Rightarrow> 'csr opaque option \<Rightarrow> json_error + 'csr opaque option" where
  "example_dec j p = Inr p"




section \<open>Properties of the PEM functions\<close>

lemma pem_EncodeToMemory_nonempty: "pem_EncodeToMemory typ bytes \<noteq> []"
  by (simp add: pem_EncodeToMemory_def)

lemma decode_iter_Return_None: "decode_iter data rest = Return (None, r) \<Longrightarrow> r = data"
  by (auto simp: decode_iter_def Let_def split: option.splits if_splits)

lemma Decode_loop_None: "Decode_loop data rest = (None, r) \<Longrightarrow> r = data"
proof (induction data rest rule: Decode_loop.induct)
  case (1 data rest)
  show ?case
  proof (cases "decode_iter data rest")
    case (Return x)
    with "1.prems" have "decode_iter data rest = Return (None, r)"
      by (subst (asm) Decode_loop.simps) simp
    then show ?thesis by (rule decode_iter_Return_None)
  next
    case (Continue rest')
    with "1.prems" have "Decode_loop data rest' = (None, r)"
      by (subst (asm) Decode_loop.simps) simp
    with Continue show ?thesis by (rule "1.IH")
  qed
qed

lemma pem_Decode_None: "fst (pem_Decode data) = None \<Longrightarrow> snd (pem_Decode data) = data"
  using Decode_loop_None [of data data "snd (pem_Decode data)"]
  by (simp add: pem_Decode_def prod_eq_iff)


lemma pem_Decode_example_csr_trailing:
  "pem_Decode (example_csr @ ''x'') =
     (Some \<lparr>Type = ''CERTIFICATE REQUEST'', Headers = [], Bytes = [0x30, 0x00]\<rparr>, ''x'')"
  by code_simp

lemma pem_Decode_no_block: "pem_Decode ''MAA='' = (None, ''MAA='')"
  by code_simp

section \<open>Base64: decoding what was encoded\<close>

lemma byte_bit: "bit (a :: byte) n \<Longrightarrow> n < 8"
  by (drule bit_imp_le_length) simp

lemma reassemble:
  "push_bit 18 (drop_bit 18 V AND mask 6) OR push_bit 12 (drop_bit 12 V AND mask 6)
     OR push_bit 6 (drop_bit 6 V AND mask 6) OR (drop_bit 0 V AND mask 6) = V AND mask 24" for V :: "32 word"
proof (rule bit_word_eqI)
  fix n assume "n < LENGTH(32)"
  consider "n < 6" | "6 \<le> n" "n < 12" | "12 \<le> n" "n < 18" | "18 \<le> n" "n < 24" | "24 \<le> n"
    by linarith
  then show "bit (push_bit 18 (drop_bit 18 V AND mask 6) OR push_bit 12 (drop_bit 12 V AND mask 6)
     OR push_bit 6 (drop_bit 6 V AND mask 6) OR (drop_bit 0 V AND mask 6)) n = bit (V AND mask 24) n"
    by cases (auto simp: bit_simps)
qed

lemma val24: "(push_bit 16 (ucast a) OR push_bit 8 (ucast b) OR ucast c :: 32 word) AND mask 24
   = push_bit 16 (ucast a) OR push_bit 8 (ucast b) OR ucast c" for a b c :: byte
  by (rule bit_word_eqI) (auto simp: bit_simps dest: byte_bit)

lemma byte0: "(ucast (drop_bit 16 (push_bit 16 (ucast a) OR push_bit 8 (ucast b) OR ucast c :: 32 word)) :: byte) = a" for a b c :: byte
  by (rule bit_word_eqI) (auto simp: bit_simps dest: byte_bit)

lemma byte1: "(ucast (drop_bit 8 (push_bit 16 (ucast a) OR push_bit 8 (ucast b) OR ucast c :: 32 word)) :: byte) = b" for a b c :: byte
  by (rule bit_word_eqI) (auto simp: bit_simps dest: byte_bit)

lemma byte2: "(ucast (push_bit 16 (ucast a) OR push_bit 8 (ucast b) OR ucast c :: 32 word) :: byte) = c" for a b c :: byte
  by (rule bit_word_eqI) (auto simp: bit_simps dest: byte_bit)


lemma mask6: "(0x3F :: 32 word) = mask 6"
  by (simp add: mask_eq_exp_minus_1)

lemma ucast_sextet: "(ucast (ucast (x AND mask 6 :: 32 word) :: byte) :: 32 word) = x AND mask 6"
  by (rule bit_word_eqI) (auto simp: bit_simps)

lemma reassemble3:
  "push_bit 18 (drop_bit 18 V AND mask 6) OR push_bit 12 (drop_bit 12 V AND mask 6)
     OR push_bit 6 (drop_bit 6 V AND mask 6) = push_bit 6 (drop_bit 6 (V AND mask 24))" for V :: "32 word"
proof (rule bit_word_eqI)
  fix n assume "n < LENGTH(32)"
  consider "n < 6" | "6 \<le> n" "n < 12" | "12 \<le> n" "n < 18" | "18 \<le> n" "n < 24" | "24 \<le> n"
    by linarith
  then show "bit (push_bit 18 (drop_bit 18 V AND mask 6) OR push_bit 12 (drop_bit 12 V AND mask 6)
     OR push_bit 6 (drop_bit 6 V AND mask 6)) n = bit (push_bit 6 (drop_bit 6 (V AND mask 24))) n"
    by cases (auto simp: bit_simps)
qed

lemma reassemble2:
  "push_bit 18 (drop_bit 18 V AND mask 6) OR push_bit 12 (drop_bit 12 V AND mask 6)
     = push_bit 12 (drop_bit 12 (V AND mask 24))" for V :: "32 word"
proof (rule bit_word_eqI)
  fix n assume "n < LENGTH(32)"
  consider "n < 12" | "12 \<le> n" "n < 18" | "18 \<le> n" "n < 24" | "24 \<le> n"
    by linarith
  then show "bit (push_bit 18 (drop_bit 18 V AND mask 6) OR push_bit 12 (drop_bit 12 V AND mask 6)) n
     = bit (push_bit 12 (drop_bit 12 (V AND mask 24))) n"
    by cases (auto simp: bit_simps)
qed

lemma dbuf_val4:
  "dbuf_val (ucast (drop_bit 18 V AND 0x3F)) (ucast (drop_bit 12 V AND 0x3F))
     (ucast (drop_bit 6 V AND 0x3F)) (ucast (drop_bit 0 V AND 0x3F)) = V AND mask 24"
  by (simp only: dbuf_val_def mask6 ucast_sextet reassemble)

lemma dbuf_val3:
  "dbuf_val (ucast (drop_bit 18 V AND 0x3F)) (ucast (drop_bit 12 V AND 0x3F))
     (ucast (drop_bit 6 V AND 0x3F)) 0 = push_bit 6 (drop_bit 6 (V AND mask 24))"
  by (simp only: dbuf_val_def mask6 ucast_sextet reassemble3 ucast_0 push_bit_of_0 or.right_neutral)

lemma dbuf_val2:
  "dbuf_val (ucast (drop_bit 18 V AND 0x3F)) (ucast (drop_bit 12 V AND 0x3F)) 0 0
     = push_bit 12 (drop_bit 12 (V AND mask 24))"
  by (simp only: dbuf_val_def mask6 ucast_sextet reassemble2 ucast_0 push_bit_of_0 or.right_neutral)

lemma quantum3:
  "val_bytes (V AND mask 24) = [a, b, c]"
  if "V = push_bit 16 (ucast a) OR push_bit 8 (ucast b) OR ucast c" for a b c :: byte
  by (simp only: val_bytes_def that val24 byte0 byte1 byte2)

lemma quantum2:
  "take 2 (val_bytes (push_bit 6 (drop_bit 6 (V AND mask 24)))) = [a, b]"
  if "V = push_bit 16 (ucast a) OR push_bit 8 (ucast b)" for a b :: byte
proof -
  have "(ucast (drop_bit 16 (push_bit 6 (drop_bit 6 (V AND mask 24)))) :: byte) = a"
    unfolding that by (rule bit_word_eqI) (auto simp: bit_simps dest: byte_bit)
  moreover have "(ucast (drop_bit 8 (push_bit 6 (drop_bit 6 (V AND mask 24)))) :: byte) = b"
    unfolding that by (rule bit_word_eqI) (auto simp: bit_simps dest: byte_bit)
  ultimately show ?thesis by (simp add: val_bytes_def)
qed

lemma quantum1:
  "take 1 (val_bytes (push_bit 12 (drop_bit 12 (V AND mask 24)))) = [a]"
  if "V = push_bit 16 (ucast a)" for a :: byte
proof -
  have "(ucast (drop_bit 16 (push_bit 12 (drop_bit 12 (V AND mask 24)))) :: byte) = a"
    unfolding that by (rule bit_word_eqI) (auto simp: bit_simps dest: byte_bit)
  then show ?thesis by (simp add: val_bytes_def)
qed


lemma sextet_lt: "unat (drop_bit k (val :: 32 word) AND 0x3F) < 64"
proof -
  have "drop_bit k val AND 0x3F \<le> 0x3F" by (rule word_and_le1)
  then have "unat (drop_bit k val AND 0x3F) \<le> unat (0x3F :: 32 word)"
    by (simp add: word_le_nat_alt)
  then show ?thesis by simp
qed

lemma distinct_encodeStd: "distinct encodeStd"
  by (simp add: encodeStd_def)

lemma length_encodeStd: "length encodeStd = 64"
  by (simp add: encodeStd_def)

lemma alphabet_pos_nth: "distinct xs \<Longrightarrow> i < length xs \<Longrightarrow> alphabet_pos xs (xs ! i) = Some i"
proof (induction xs arbitrary: i)
  case Nil
  then show ?case by simp
next
  case (Cons x xs)
  then show ?case by (cases i) auto
qed

lemma decodeMap_enc_at: "decodeMap (enc_at val k) = ucast (drop_bit k val AND 0x3F)"
  using alphabet_pos_nth [OF distinct_encodeStd, of "unat (drop_bit k val AND 0x3F)"] sextet_lt [of k val]
  by (simp add: decodeMap_def enc_at_def length_encodeStd)

lemma sextet_ne_FF: "(ucast (drop_bit k (val :: 32 word) AND 0x3F) :: byte) \<noteq> 0xFF"
proof
  assume "(ucast (drop_bit k val AND 0x3F) :: byte) = 0xFF"
  then have "bit (ucast (drop_bit k val AND 0x3F) :: byte) 7 = bit (0xFF :: byte) 7" by simp
  then show False by (simp add: bit_simps mask6)
qed

lemma enc_at_in_alphabet: "enc_at val k \<in> set encodeStd"
  using sextet_lt [of k val] by (simp add: enc_at_def length_encodeStd)

lemma decodeMap_padChar: "decodeMap padChar = 0xFF"
  by (simp add: decodeMap_def padChar_def encodeStd_def)

lemma padChar_not_newline: "\<not> is_newline padChar"
  by (simp add: is_newline_def padChar_def)

lemma decodeQuantum_full:
  "decodeQuantum [] (enc_at V 18 # enc_at V 12 # enc_at V 6 # enc_at V 0 # src)
     = Some (val_bytes (V AND mask 24), src)"
  by (simp add: decodeMap_enc_at sextet_ne_FF dbuf_val4 del: drop_bit_0)

lemma decodeQuantum_pad1:
  "decodeQuantum [] [enc_at V 18, enc_at V 12, enc_at V 6, padChar]
     = Some (take 2 (val_bytes (push_bit 6 (drop_bit 6 (V AND mask 24)))), [])"
  by (simp add: decodeMap_enc_at sextet_ne_FF dbuf_val3 decodeMap_padChar padChar_not_newline
      after_padding_def)

lemma decodeQuantum_pad2:
  "decodeQuantum [] [enc_at V 18, enc_at V 12, padChar, padChar]
     = Some (take 1 (val_bytes (push_bit 12 (drop_bit 12 (V AND mask 24)))), [])"
  by (simp add: decodeMap_enc_at sextet_ne_FF dbuf_val2 decodeMap_padChar padChar_not_newline
      after_padding_def)

lemma b64_Decode_Nil: "b64_Decode [] = Some []"
  by (simp add: b64_Decode.simps)

lemma b64_roundtrip: "b64_Decode (b64_Encode bs) = Some bs"
proof (induction bs rule: b64_Encode.induct)
  case (1 a b c src)
  define V :: "32 word" where "V = push_bit 16 (ucast a) OR push_bit 8 (ucast b) OR ucast c"
  have "b64_Encode (a # b # c # src)
          = enc_at V 18 # enc_at V 12 # enc_at V 6 # enc_at V 0 # b64_Encode src"
    by (simp add: V_def Let_def)
  moreover have "b64_Decode (enc_at V 18 # enc_at V 12 # enc_at V 6 # enc_at V 0 # b64_Encode src)
          = map_option (\<lambda>r. val_bytes (V AND mask 24) @ r) (b64_Decode (b64_Encode src))"
    by (subst b64_Decode.simps) (simp only: decodeQuantum_full, simp)
  ultimately show ?case
    using "1.IH" quantum3 [OF V_def] by simp
next
  case (2 a b)
  define V :: "32 word" where "V = push_bit 16 (ucast a) OR push_bit 8 (ucast b)"
  have "b64_Encode [a, b] = [enc_at V 18, enc_at V 12, enc_at V 6, padChar]"
    by (simp add: V_def Let_def)
  moreover have "b64_Decode [enc_at V 18, enc_at V 12, enc_at V 6, padChar]
          = Some (take 2 (val_bytes (push_bit 6 (drop_bit 6 (V AND mask 24)))))"
    by (subst b64_Decode.simps) (simp only: decodeQuantum_pad1, simp add: b64_Decode_Nil)
  ultimately show ?case
    using quantum2 [OF V_def] by simp
next
  case (3 a)
  define V :: "32 word" where "V = push_bit 16 (ucast a)"
  have "b64_Encode [a] = [enc_at V 18, enc_at V 12, padChar, padChar]"
    by (simp add: V_def Let_def)
  moreover have "b64_Decode [enc_at V 18, enc_at V 12, padChar, padChar]
          = Some (take 1 (val_bytes (push_bit 12 (drop_bit 12 (V AND mask 24)))))"
    by (subst b64_Decode.simps) (simp only: decodeQuantum_pad2, simp add: b64_Decode_Nil)
  ultimately show ?case
    using quantum1 [OF V_def] by simp
next
  case 4
  show ?case by (simp add: b64_Decode_Nil)
qed

section \<open>Base64: newlines in the input are skipped\<close>

abbreviation strip_newlines :: "string \<Rightarrow> string" where
  "strip_newlines s \<equiv> filter (\<lambda>c. \<not> is_newline c) s"

lemma decodeMap_LF: "decodeMap (CHR 0x0A) = 0xFF"
  by code_simp

lemma decodeMap_CR: "decodeMap (CHR 0x0D) = 0xFF"
  by code_simp

lemma decodeMap_newline: "is_newline c \<Longrightarrow> decodeMap c = 0xFF"
  unfolding is_newline_def using decodeMap_LF decodeMap_CR by blast

lemma dropWhile_newline_Nil: "dropWhile is_newline s = [] \<longleftrightarrow> strip_newlines s = []"
  by (simp add: filter_empty_conv)

lemma dropWhile_newline_Cons:
  "dropWhile is_newline s = d # s' \<Longrightarrow> strip_newlines s = d # strip_newlines s'"
  by (induction s) (simp_all split: if_splits)

lemma dropWhile_strip_newlines: "dropWhile is_newline (strip_newlines s) = strip_newlines s"
  by (induction s) simp_all

lemma after_padding_strip:
  "after_padding dbuf (strip_newlines s)
     = map_option (\<lambda>(out, r). (out, strip_newlines r)) (after_padding dbuf s)"
  by (simp add: after_padding_def dropWhile_strip_newlines filter_empty_conv)

lemma decodeQuantum_pad_branch:
  "decodeMap c = 0xFF \<Longrightarrow> \<not> is_newline c \<Longrightarrow>
   decodeQuantum dbuf (c # src) =
     (if c \<noteq> padChar \<or> length dbuf = 0 \<or> length dbuf = 1 then None
      else if length dbuf = 2 then
        (case dropWhile is_newline src of
           [] \<Rightarrow> None
         | d # src' \<Rightarrow> if d \<noteq> padChar then None else after_padding dbuf src')
      else after_padding dbuf src)"
  by simp

lemma decodeQuantum_strip:
  "decodeQuantum dbuf (strip_newlines s)
     = map_option (\<lambda>(out, r). (out, strip_newlines r)) (decodeQuantum dbuf s)"
proof (induction dbuf s rule: decodeQuantum.induct)
  case (1 dbuf)
  show ?case by simp
next
  case (2 dbuf c src)
  show ?case
  proof (cases "is_newline c")
    case True
    have "decodeQuantum dbuf (c # src) = decodeQuantum dbuf src"
      using True by (simp add: decodeMap_newline)
    moreover have "strip_newlines (c # src) = strip_newlines src"
      using True by simp
    ultimately show ?thesis
      using "2.IH"(2) [OF refl _ True] by (simp add: decodeMap_newline True)
  next
    case nl: False
    have l: "strip_newlines (c # src) = c # strip_newlines src"
      using nl by simp
    show ?thesis
    proof (cases "decodeMap c = 0xFF")
      case False
      show ?thesis
      proof (cases "length dbuf = 3")
        case True
        then show ?thesis unfolding l using False by (simp add: Let_def)
      next
        case ne3: False
        have "decodeQuantum (dbuf @ [decodeMap c]) (strip_newlines src)
                = map_option (\<lambda>(out, r). (out, strip_newlines r))
                    (decodeQuantum (dbuf @ [decodeMap c]) src)"
          using "2.IH"(1) [OF refl False ne3] .
        then show ?thesis unfolding l using False ne3 by (simp add: Let_def)
      qed
    next
      case True
      note eq1 = decodeQuantum_pad_branch [OF True nl, of dbuf src]
      note eq2 = decodeQuantum_pad_branch [OF True nl, of dbuf "strip_newlines src"]
      show ?thesis
      proof (cases "dropWhile is_newline src")
        case Nil
        then have f: "strip_newlines src = []"
          by (simp only: dropWhile_newline_Nil)
        have "decodeQuantum dbuf (c # src)
                = (if c \<noteq> padChar \<or> length dbuf = 0 \<or> length dbuf = 1 \<or> length dbuf = 2 then None
                   else Some (quantum_out dbuf, []))"
          by (subst eq1) (simp add: after_padding_def Nil del: dropWhile_eq_Nil_conv)
        moreover have "decodeQuantum dbuf (c # strip_newlines src)
                = (if c \<noteq> padChar \<or> length dbuf = 0 \<or> length dbuf = 1 \<or> length dbuf = 2 then None
                   else Some (quantum_out dbuf, []))"
          by (subst eq2) (simp add: after_padding_def f)
        ultimately show ?thesis unfolding l by simp
      next
        case (Cons d src')
        have f: "strip_newlines src = d # strip_newlines src'"
          using Cons by (rule dropWhile_newline_Cons)
        have g: "dropWhile is_newline (d # strip_newlines src') = d # strip_newlines src'"
          using dropWhile_strip_newlines [of src] unfolding f .
        have "decodeQuantum dbuf (c # src)
                = (if c \<noteq> padChar \<or> length dbuf = 0 \<or> length dbuf = 1 then None
                   else if length dbuf = 2 then
                     (if d \<noteq> padChar then None else after_padding dbuf src')
                   else None)"
          by (subst eq1) (simp add: Cons after_padding_def [of dbuf src] del: dropWhile_eq_Nil_conv)
        moreover have "decodeQuantum dbuf (c # strip_newlines src)
                = (if c \<noteq> padChar \<or> length dbuf = 0 \<or> length dbuf = 1 then None
                   else if length dbuf = 2 then
                     (if d \<noteq> padChar then None else after_padding dbuf (strip_newlines src'))
                   else None)"
          by (subst eq2, unfold f) (simp add: g after_padding_def [of dbuf "d # strip_newlines src'"] del: dropWhile_eq_Nil_conv dropWhile.simps)
        ultimately show ?thesis unfolding l by (simp add: after_padding_strip)
      qed
    qed
  qed
qed

lemma b64_Decode_strip: "b64_Decode (strip_newlines s) = b64_Decode s"
proof (induction s rule: b64_Decode.induct)
  case (1 src)
  show ?case
  proof (cases "src = []")
    case True
    then show ?thesis by simp
  next
    case ne: False
    then have len: "length src \<noteq> 0" by simp
    show ?thesis
    proof (cases "decodeQuantum [] src")
      case None
      then have q: "decodeQuantum [] (strip_newlines src) = None"
        by (simp only: decodeQuantum_strip option.map)
      have ne': "strip_newlines src \<noteq> []"
      proof
        assume e: "strip_newlines src = []"
        from q [unfolded e] show False by simp
      qed
      have "b64_Decode src = None"
        by (subst b64_Decode.simps) (simp add: ne None)
      moreover have "b64_Decode (strip_newlines src) = None"
        by (subst b64_Decode.simps) (simp add: ne' q)
      ultimately show ?thesis by simp
    next
      case (Some p)
      obtain out r where p: "p = (out, r)" by (cases p)
      have dq: "decodeQuantum [] src = Some (out, r)"
        using Some unfolding p .
      have q: "decodeQuantum [] (strip_newlines src) = Some (out, strip_newlines r)"
        by (simp only: decodeQuantum_strip dq option.map prod.case)
      have ih: "b64_Decode (strip_newlines r) = b64_Decode r"
        by (rule "1.IH" [OF len dq refl])
      have lhs: "b64_Decode src = map_option (\<lambda>x. out @ x) (b64_Decode r)"
        by (subst b64_Decode.simps) (simp add: ne dq)
      show ?thesis
      proof (cases "strip_newlines src = []")
        case True
        from q [unfolded True] have o: "out = []" and r: "strip_newlines r = []"
          by simp_all
        have "b64_Decode r = Some []"
          using ih unfolding r by (simp add: b64_Decode_Nil)
        then show ?thesis
          unfolding True lhs o by (simp add: b64_Decode_Nil)
      next
        case False
        have "b64_Decode (strip_newlines src)
                = map_option (\<lambda>x. out @ x) (b64_Decode (strip_newlines r))"
          by (subst b64_Decode.simps) (simp add: False q)
        then show ?thesis unfolding ih lhs .
      qed
    qed
  qed
qed

section \<open>Lines of the PEM body\<close>

definition b64_char :: "char \<Rightarrow> bool" where
  "b64_char c \<longleftrightarrow> c \<in> set encodeStd \<or> c = padChar"

lemma b64_char_excludes:
  "\<forall>c \<in> set (padChar # encodeStd).
     c \<noteq> CHR 0x0A \<and> c \<noteq> CHR 0x0D \<and> c \<noteq> CHR 0x20 \<and> c \<noteq> CHR 0x09 \<and> c \<noteq> CHR ''-'' \<and> c \<noteq> CHR '':''"
  by code_simp

lemma b64_char_not_special:
  assumes "b64_char c"
  shows "c \<noteq> CHR 0x0A" "c \<noteq> CHR 0x0D" "c \<noteq> CHR 0x20" "c \<noteq> CHR 0x09" "c \<noteq> CHR ''-''" "c \<noteq> CHR '':''"
proof -
  have "c \<in> set (padChar # encodeStd)"
    using assms by (auto simp: b64_char_def)
  from bspec [OF b64_char_excludes this]
  show "c \<noteq> CHR 0x0A" "c \<noteq> CHR 0x0D" "c \<noteq> CHR 0x20" "c \<noteq> CHR 0x09" "c \<noteq> CHR ''-''" "c \<noteq> CHR '':''"
    by blast+
qed

lemma b64_Encode_chars: "\<forall>c \<in> set (b64_Encode bs). b64_char c"
  by (induction bs rule: b64_Encode.induct)
     (simp_all add: Let_def b64_char_def enc_at_in_alphabet)

lemma lineBreaker_Nil: "lineBreaker [] = []"
  by (subst lineBreaker.simps) (simp add: pemLineLength_def)

lemma lineBreaker_unfold:
  "x \<noteq> [] \<Longrightarrow> lineBreaker x = take pemLineLength x @ nl @ lineBreaker (drop pemLineLength x)"
  by (subst lineBreaker.simps) (simp add: lineBreaker_Nil)

lemma lineBreaker_set: "set (lineBreaker x) \<subseteq> set x \<union> {CHR 0x0A}"
proof (induction x rule: lineBreaker.induct)
  case (1 b)
  show ?case
  proof (cases "length b < pemLineLength")
    case True
    then show ?thesis by (subst lineBreaker.simps) (simp add: nl_def)
  next
    case False
    have "set (take pemLineLength b) \<subseteq> set b" by (rule set_take_subset)
    moreover have "set (drop pemLineLength b) \<subseteq> set b" by (rule set_drop_subset)
    moreover note "1.IH" [OF False]
    ultimately show ?thesis
      using False by (subst lineBreaker.simps) (auto simp: nl_def)
  qed
qed

lemma lineBreaker_strip: "strip_newlines (lineBreaker x) = strip_newlines x"
proof (induction x rule: lineBreaker.induct)
  case (1 b)
  have n: "strip_newlines nl = []" by (simp add: nl_def is_newline_def)
  show ?case
  proof (cases "length b < pemLineLength")
    case True
    then show ?thesis by (subst lineBreaker.simps) (simp add: n)
  next
    case False
    have "strip_newlines (take pemLineLength b) @ strip_newlines (drop pemLineLength b)
            = strip_newlines b"
      by (simp only: filter_append [symmetric] append_take_drop_id)
    with "1.IH" [OF False] False show ?thesis
      by (subst lineBreaker.simps) (simp add: n)
  qed
qed

lemma lineBreaker_ends:
  "x \<noteq> [] \<Longrightarrow> \<exists>b. lineBreaker x = b @ nl"
proof (induction x rule: lineBreaker.induct)
  case (1 b)
  show ?case
  proof (cases "length b < pemLineLength")
    case True
    with "1.prems" show ?thesis by (subst lineBreaker.simps) simp
  next
    case False
    show ?thesis
    proof (cases "drop pemLineLength b = []")
      case True
      have "lineBreaker b = take pemLineLength b @ nl"
        using False True by (subst lineBreaker.simps) (simp add: lineBreaker_Nil)
      then show ?thesis by blast
    next
      case ne: False
      from "1.IH" [OF False ne] obtain b' where "lineBreaker (drop pemLineLength b) = b' @ nl" ..
      then have "lineBreaker b = (take pemLineLength b @ nl @ b') @ nl"
        using False by (subst lineBreaker.simps) simp
      then show ?thesis by blast
    qed
  qed
qed


lemma bytes_Index_char:
  "c \<notin> set xs \<Longrightarrow> bytes_Index (xs @ c # r) [c] = Some (length xs)"
  by (induction xs) simp_all

lemma bytes_Index_char_None:
  "c \<notin> set xs \<Longrightarrow> bytes_Index xs [c] = None"
  by (induction xs) simp_all

lemma bytes_TrimRight_id:
  "l = [] \<or> last l \<notin> set cs \<Longrightarrow> bytes_TrimRight l cs = l"
proof (cases l rule: rev_cases)
  case Nil
  then show ?thesis by (simp add: bytes_TrimRight_def)
next
  case (snoc ys y)
  assume "l = [] \<or> last l \<notin> set cs"
  with snoc show ?thesis by (simp add: bytes_TrimRight_def)
qed

lemma getLine_line:
  assumes "CHR 0x0A \<notin> set l"
    and "l = [] \<or> last l \<notin> {CHR 0x0D, CHR 0x20, CHR 0x09}"
  shows "getLine (l @ nl @ r) = (l, r)"
proof -
  have i: "bytes_Index (l @ nl @ r) nl = Some (length l)"
    using bytes_Index_char [OF assms(1), of r] by (simp add: nl_def)
  have cr: "\<not> (0 < length l \<and> (l @ nl @ r) ! (length l - 1) = CHR 0x0D)"
  proof (cases l rule: rev_cases)
    case Nil
    then show ?thesis by simp
  next
    case (snoc ys y)
    with assms(2) show ?thesis by (simp add: nth_append)
  qed
  have t: "bytes_TrimRight l [CHR 0x20, CHR 0x09] = l"
    using assms(2) by (intro bytes_TrimRight_id) auto
  have d: "drop (length l + 1) (l @ nl @ r) = r"
    by (simp add: nl_def)
  from cr have "getLine (l @ nl @ r) = (bytes_TrimRight (take (length l) (l @ nl @ r)) [CHR 0x20, CHR 0x09], r)"
    unfolding getLine_def i option.case d by (simp only: if_False)
  then show ?thesis by (simp add: t)
qed


lemma bytes_Index_pemEnd:
  "CHR ''-'' \<notin> set xs \<Longrightarrow> bytes_Index (xs @ pemEnd @ r) pemEnd = Some (length xs)"
proof (induction xs)
  case Nil
  show ?case by (simp add: pemEnd_def)
next
  case (Cons x xs)
  have "\<not> prefix pemEnd (x # xs @ pemEnd @ r)"
  proof (cases xs)
    case Nil
    then show ?thesis by (simp add: pemEnd_def)
  next
    case (Cons y ys)
    with Cons.prems show ?thesis by (auto simp: pemEnd_def)
  qed
  with Cons show ?case by simp
qed

lemma b64_Encode_nonempty: "bs \<noteq> [] \<Longrightarrow> b64_Encode bs \<noteq> []"
  by (induction bs rule: b64_Encode.induct) (simp_all add: Let_def)

lemma strip_newlines_b64: "\<forall>c \<in> set s. b64_char c \<Longrightarrow> strip_newlines s = s"
  by (rule filter_True) (auto simp: is_newline_def dest: b64_char_not_special)

lemma read_headers_no_colon:
  assumes "rest \<noteq> []" and "bytes_Cut (fst (getLine rest)) colon = None"
  shows "read_headers hs rest = Some (hs, rest)"
  using assms by (subst read_headers.simps) simp

section \<open>A block that was encoded decodes to itself\<close>

lemma pemEnd_nl: "nl @ ''-----END '' = pemEnd"
  by (simp add: nl_def pemEnd_def)

lemma pem_roundtrip:
  assumes no_nl: "CHR 0x0A \<notin> set typ" and bytes: "bytes \<noteq> []"
  shows "pem_Decode (pem_EncodeToMemory typ bytes @ extra)
           = (Some \<lparr>Type = typ, Headers = [], Bytes = bytes\<rparr>, extra)"
proof -
  define E where "E = b64_Encode bytes"
  define tail where "tail = typ @ ''-----'' @ nl @ extra"
  define T where "T = typ @ ''-----''"
  define R2 where "R2 = lineBreaker E @ ''-----END '' @ tail"
  have E_ne: "E \<noteq> []" unfolding E_def using bytes by (rule b64_Encode_nonempty)
  have E_chars: "\<forall>c \<in> set E. b64_char c" unfolding E_def by (rule b64_Encode_chars)
  obtain body0 where lb: "lineBreaker E = body0 @ nl"
    using lineBreaker_ends [OF E_ne] ..
  have body0_set: "set body0 \<subseteq> set E \<union> {CHR 0x0A}"
    using lineBreaker_set [of E] unfolding lb by simp
  have body0_dash: "CHR ''-'' \<notin> set body0"
    using body0_set E_chars b64_char_not_special(5) by fastforce
  have body0_blank: "\<forall>c \<in> set body0. \<not> (c = CHR 0x20 \<or> c = CHR 0x09)"
    using body0_set E_chars b64_char_not_special(3,4) by fastforce
  have body0_strip: "strip_newlines body0 = E"
  proof -
    have "strip_newlines (body0 @ nl) = strip_newlines E"
      using lineBreaker_strip [of E] unfolding lb .
    moreover have "strip_newlines nl = []"
      by (simp add: nl_def is_newline_def)
    ultimately have "strip_newlines body0 = strip_newlines E" by simp
    then show ?thesis
      by (simp only: strip_newlines_b64 [OF E_chars])
  qed
  have R2_body0: "R2 = body0 @ pemEnd @ tail"
    unfolding R2_def lb by (simp add: pemEnd_nl [symmetric])
  define l1 where "l1 = take pemLineLength E"
  have l1_ne: "l1 \<noteq> []" unfolding l1_def using E_ne by (simp add: pemLineLength_def)
  have l1_chars: "\<forall>c \<in> set l1. b64_char c"
    unfolding l1_def using E_chars by (meson in_set_takeD)
  have R2_l1: "R2 = l1 @ nl @ (lineBreaker (drop pemLineLength E) @ ''-----END '' @ tail)"
    unfolding R2_def l1_def by (subst lineBreaker_unfold [OF E_ne]) simp
  have data: "pem_EncodeToMemory typ bytes @ extra = ''-----BEGIN '' @ T @ nl @ R2"
    by (simp add: pem_EncodeToMemory_def R2_def tail_def E_def T_def)
  have a: "find_start (''-----BEGIN '' @ T @ nl @ R2) = Some (T @ nl @ R2)"
    by (simp add: find_start_def pemStart_def)
  have b: "getLine (T @ nl @ R2) = (T, R2)"
    by (rule getLine_line) (use no_nl in \<open>simp_all add: T_def\<close>)
  have T_suffix: "suffix pemEndOfLine T"
    unfolding T_def pemEndOfLine_def by (rule suffixI) simp
  have T_take: "take (length T - length pemEndOfLine) T = typ"
    by (simp add: T_def pemEndOfLine_def)
  have l1_line: "getLine R2 = (l1, lineBreaker (drop pemLineLength E) @ ''-----END '' @ tail)"
    unfolding R2_l1
  proof (rule getLine_line)
    show "CHR 0x0A \<notin> set l1" using l1_chars b64_char_not_special(1) by blast
    have "last l1 \<in> set l1" using l1_ne by simp
    then have "b64_char (last l1)" using l1_chars by blast
    then show "l1 = [] \<or> last l1 \<notin> {CHR 0x0D, CHR 0x20, CHR 0x09}"
      using b64_char_not_special(2,3,4) by blast
  qed
  have "CHR '':'' \<notin> set l1" using l1_chars b64_char_not_special(6) by blast
  then have cut: "bytes_Cut (fst (getLine R2)) colon = None"
    by (simp add: l1_line bytes_Cut_def colon_def bytes_Index_char_None)
  have R2_ne: "R2 \<noteq> []" unfolding R2_l1 using l1_ne by simp
  have c: "read_headers [] R2 = Some ([], R2)"
    using R2_ne cut by (rule read_headers_no_colon)
  have no_end: "\<not> prefix (tl pemEnd) R2"
  proof -
    obtain e l1' where l1: "l1 = e # l1'" using l1_ne by (cases l1) auto
    then have "b64_char e" using l1_chars by simp
    then have "e \<noteq> CHR ''-''" by (rule b64_char_not_special)
    then show ?thesis unfolding R2_l1 l1 by (simp add: pemEnd_def)
  qed
  have idx: "bytes_Index R2 pemEnd = Some (length body0)"
    unfolding R2_body0 using body0_dash by (rule bytes_Index_pemEnd)
  have fe: "find_end [] R2 = Some (length body0, length body0 + length pemEnd)"
    using no_end by (simp add: find_end_def idx)
  have dec: "b64_Decode (removeSpacesAndTabs (take (length body0) R2)) = Some bytes"
  proof -
    have "removeSpacesAndTabs (take (length body0) R2) = body0"
      unfolding R2_body0 removeSpacesAndTabs_def using body0_blank by simp
    moreover have "b64_Decode body0 = b64_Decode E"
      using b64_Decode_strip [of body0] unfolding body0_strip by simp
    ultimately show ?thesis by (simp add: E_def b64_roundtrip)
  qed
  have trailer: "drop (length body0 + length pemEnd) R2 = tail"
    unfolding R2_body0 by simp
  have endline: "getLine (drop (length body0 + length pemEnd - 1) R2) = ('' '' @ typ @ ''-----'', extra)"
  proof -
    have "drop (length body0 + length pemEnd - 1) R2 = ('' '' @ typ @ ''-----'') @ nl @ extra"
      unfolding R2_body0 tail_def by (simp add: pemEnd_def)
    moreover have "getLine (('' '' @ typ @ ''-----'') @ nl @ extra) = ('' '' @ typ @ ''-----'', extra)"
      by (rule getLine_line) (use no_nl in simp_all)
    ultimately show ?thesis by simp
  qed
  have rol: "getLine (nl @ extra) = ([], extra)"
    using getLine_line [of "[]" extra] by simp
  have endline': "snd (getLine (drop (length body0 + length pemEnd - Suc 0) R2)) = extra"
    using endline by simp
  have suf: "suffix ''-----'' (typ @ ''-----'')"
    by (rule suffixI) simp
  have lenR2: "length R2 - (length body0 + length pemEnd) = length tail"
    using trailer by (metis length_drop)
  have d: "decode_body typ [] R2 = Some (\<lparr>Type = typ, Headers = [], Bytes = bytes\<rparr>, extra)"
    unfolding decode_body_def fe
    by (simp add: trailer dec endline' suf lenR2 Let_def tail_def pemEndOfLine_def rol)
  have "decode_iter (''-----BEGIN '' @ T @ nl @ R2) (''-----BEGIN '' @ T @ nl @ R2)
          = Return (Some \<lparr>Type = typ, Headers = [], Bytes = bytes\<rparr>, extra)"
    unfolding decode_iter_def a option.case b fst_conv snd_conv Let_def T_take c
    using T_suffix by (simp add: d)
  then show ?thesis
    unfolding pem_Decode_def data by (subst Decode_loop.simps) simp
qed

section \<open>Member names and tags\<close>

lemma json_key_simple: "json_key ''UUID'' ''request_uuid'' = Some (''request_uuid'', False)"
  by code_simp

lemma wire_keys_CIEPSResponse: "wire_keys (reflect_CIEPSResponse c) = CIEPSResponse_schema"
  by code_simp

lemma wire_keys_CIEPSRequest: "wire_keys (reflect_CIEPSRequest req) = CIEPSRequest_schema"
  by code_simp

lemma find_field_None_iff: "find_field fs key = None \<longleftrightarrow> key \<notin> set (wire_keys fs)"
  by (induction fs key rule: find_field.induct) (auto split: option.splits if_splits)

lemma wire_keys_set_field: "wire_keys (set_field fs field v) = wire_keys fs"
  by (induction fs) (auto split: option.splits)

lemma unmarshal_members_unknown:
  assumes "key \<in> fst ` set ms" and "key \<notin> set (wire_keys fs)"
  shows "\<exists>e. unmarshal_members True dec ms fs = Inl e"
  using assms
proof (induction ms arbitrary: fs)
  case Nil
  then show ?case by simp
next
  case (Cons m ms)
  obtain k v where m: "m = (k, v)" by (cases m)
  show ?case
  proof (cases "find_field fs k")
    case None
    then show ?thesis by (simp add: m)
  next
    case (Some fo)
    obtain field old where fo: "fo = (field, old)" by (cases fo)
    have kne: "k \<noteq> key"
      using Some Cons.prems(2) find_field_None_iff [of fs k] by auto
    with Cons.prems(1) have key_ms: "key \<in> fst ` set ms" by (auto simp: m)
    show ?thesis
    proof (cases "unmarshal_value True dec v old")
      case (Inl e)
      then show ?thesis by (simp add: m Some fo)
    next
      case (Inr new)
      have "key \<notin> set (wire_keys (set_field fs field new))"
        using Cons.prems(2) by (simp add: wire_keys_set_field)
      from Cons.IH [OF key_ms this] show ?thesis by (simp add: m Some fo Inr)
    qed
  qed
qed

lemma marshal_fields_keys:
  "(k, v) \<in> set (marshal_fields fs) \<Longrightarrow> k \<in> set (wire_keys fs)"
proof (induction fs)
  case Nil
  then show ?case by simp
next
  case (Cons x fs)
  obtain field tag w where x: "x = (field, tag, w)" by (cases x)
  show ?case
  proof (cases "json_key field tag")
    case None
    with Cons show ?thesis by (simp add: x)
  next
    case (Some ko)
    obtain key omitEmpty where ko: "ko = (key, omitEmpty)" by (cases ko)
    from Cons.prems have "(k, v) = (key, w) \<or> (k, v) \<in> set (marshal_fields fs)"
      by (simp add: x Some ko split: if_splits)
    then show ?thesis
    proof
      assume "(k, v) = (key, w)"
      then show ?thesis by (simp add: x Some ko)
    next
      assume "(k, v) \<in> set (marshal_fields fs)"
      then have "k \<in> set (wire_keys fs)" by (rule Cons.IH)
      then show ?thesis by (simp add: x Some ko)
    qed
  qed
qed

definition skipped :: "'csr fields \<Rightarrow> string \<Rightarrow> bool" where
  "skipped fs field \<longleftrightarrow> (\<forall>(g, tag, v) \<in> set fs. g = field \<longrightarrow> json_key g tag = None)"

lemma find_field_not_skipped:
  "find_field fs key = Some (g, old) \<Longrightarrow> skipped fs field \<Longrightarrow> g \<noteq> field"
  by (induction fs) (auto simp: skipped_def split: option.splits if_splits)

lemma field_value_set_field:
  "g \<noteq> field \<Longrightarrow> field_value (set_field fs g v) field = field_value fs field"
  by (induction fs) auto

lemma set_field_entries:
  "(h, tag, w) \<in> set (set_field fs g v) \<Longrightarrow> \<exists>w'. (h, tag, w') \<in> set fs"
proof (induction fs)
  case Nil
  then show ?case by simp
next
  case (Cons x fs)
  obtain f t old where x: "x = (f, t, old)" by (cases x)
  show ?case
  proof (cases "f = g")
    case True
    with Cons.prems have "(h, tag, w) = (f, t, v) \<or> (h, tag, w) \<in> set fs"
      by (simp add: x)
    then show ?thesis by (auto simp: x)
  next
    case False
    with Cons.prems have "(h, tag, w) = (f, t, old) \<or> (h, tag, w) \<in> set (set_field fs g v)"
      by (simp add: x)
    then show ?thesis
    proof
      assume "(h, tag, w) = (f, t, old)"
      then show ?thesis by (auto simp: x)
    next
      assume "(h, tag, w) \<in> set (set_field fs g v)"
      then obtain w' where "(h, tag, w') \<in> set fs" using Cons.IH by blast
      then show ?thesis by auto
    qed
  qed
qed

lemma skipped_set_field: "skipped fs field \<Longrightarrow> skipped (set_field fs g v) field"
  unfolding skipped_def using set_field_entries by fastforce

lemma unmarshal_members_skipped:
  assumes "unmarshal_members strict dec ms fs = Inr fs'" and "skipped fs field"
  shows "field_value fs' field = field_value fs field"
  using assms
proof (induction ms arbitrary: fs)
  case Nil
  then show ?case by simp
next
  case (Cons m ms)
  obtain k v where m: "m = (k, v)" by (cases m)
  show ?case
  proof (cases "find_field fs k")
    case None
    with Cons.prems(1) have "unmarshal_members strict dec ms fs = Inr fs'"
      by (simp add: m split: if_splits)
    from Cons.IH [OF this Cons.prems(2)] show ?thesis .
  next
    case (Some fo)
    obtain g old where fo: "fo = (g, old)" by (cases fo)
    from Some fo Cons.prems(2) have ne: "g \<noteq> field"
      using find_field_not_skipped by fastforce
    from Cons.prems(1) obtain new where
      new: "unmarshal_value strict dec v old = Inr new" and
      rest: "unmarshal_members strict dec ms (set_field fs g new) = Inr fs'"
      by (auto simp: m Some fo split: sum.splits)
    have "field_value fs' field = field_value (set_field fs g new) field"
      using rest skipped_set_field [OF Cons.prems(2)] by (rule Cons.IH)
    then show ?thesis by (simp add: field_value_set_field [OF ne])
  qed
qed

lemma skipped_ParsedCertificate: "skipped (reflect_CIEPSResponse c) ''ParsedCertificate''"
  by (simp add: skipped_def reflect_CIEPSResponse_def json_key_def)

lemma skipped_ParsedCSR: "skipped (reflect_CIEPSRequest req) ''ParsedCSR''"
  by (simp add: skipped_def reflect_CIEPSRequest_def json_key_def)

lemma field_value_ParsedCertificate:
  "field_value (reflect_CIEPSResponse c) ''ParsedCertificate''
     = Some (RPtr (map_option OCertificate (ParsedCertificate c)))"
  by (simp add: reflect_CIEPSResponse_def)

lemma field_value_ParsedCSR:
  "field_value (reflect_CIEPSRequest req) ''ParsedCSR''
     = Some (RPtr (map_option OCertificateRequest (ParsedCSR req)))"
  by (simp add: reflect_CIEPSRequest_def)

lemma reify_ParsedCertificate:
  "field_value fs ''ParsedCertificate'' = Some (RPtr (map_option OCertificate (ParsedCertificate c)))
   \<Longrightarrow> ParsedCertificate (reify_CIEPSResponse fs c) = ParsedCertificate c"
  by (cases "ParsedCertificate c") (simp_all add: reify_CIEPSResponse_def)

lemma decode_CIEPSResponse_ParsedCertificate:
  assumes "decode_CIEPSResponse dec j c = Inr c'"
  shows "ParsedCertificate c' = ParsedCertificate c"
proof (cases j)
  case JNull
  with assms have "c' = reify_CIEPSResponse (reflect_CIEPSResponse c :: unit fields) c"
    by (simp add: decode_CIEPSResponse_def)
  then show ?thesis
    by (simp add: reify_ParsedCertificate field_value_ParsedCertificate)
next
  case (JObject ms)
  with assms obtain fs' where
    fs': "unmarshal_members True dec ms (reflect_CIEPSResponse c) = Inr fs'" and
    c': "c' = reify_CIEPSResponse fs' c"
    by (auto simp: decode_CIEPSResponse_def split: sum.splits)
  have "field_value fs' ''ParsedCertificate'' = field_value (reflect_CIEPSResponse c) ''ParsedCertificate''"
    using fs' skipped_ParsedCertificate by (rule unmarshal_members_skipped)
  then show ?thesis
    unfolding c' by (simp add: reify_ParsedCertificate field_value_ParsedCertificate)
qed (use assms in \<open>simp_all add: decode_CIEPSResponse_def\<close>)

lemma decode_example_reply:
  "decode_CIEPSResponse example_dec example_reply (example_response None)
     = Inr ((example_response None)\<lparr>Warnings := [''short ttl'']\<rparr>)"
  by code_simp

lemma decode_example_reply_unknown:
  "decode_CIEPSResponse example_dec
       (JObject [(''request_uuid'', JString ''6f1c''), (''admin'', JBool True)])
       (example_response None)
     = Inl (UnknownField ''admin'')"
  by code_simp

lemma json_key_dash: "json_key field ''-'' = None"
  by (simp add: json_key_def)

lemma marshal_fields_subset: "fst ` set (marshal_fields fs) \<subseteq> set (wire_keys fs)"
proof
  fix k
  assume "k \<in> fst ` set (marshal_fields fs)"
  then obtain v where "(k, v) \<in> set (marshal_fields fs)" by auto
  then show "k \<in> set (wire_keys fs)" by (rule marshal_fields_keys)
qed

lemma marshal_fields_append:
  "marshal_fields (xs @ ys) = marshal_fields xs @ marshal_fields ys"
proof (induction xs)
  case Nil
  show ?case by simp
next
  case (Cons x xs)
  obtain field tag v where x: "x = (field, tag, v)" by (cases x)
  show ?case
  proof (cases "json_key field tag")
    case None
    with Cons show ?thesis by (simp add: x)
  next
    case (Some ko)
    obtain key omitEmpty where "ko = (key, omitEmpty)" by (cases ko)
    with Some Cons show ?thesis by (simp add: x)
  qed
qed

lemma marshal_fields_dash:
  "marshal_fields (xs @ (field, ''-'', v) # ys) = marshal_fields (xs @ ys)"
  by (simp add: marshal_fields_append json_key_dash)

lemma marshal_CIEPSRequest_ParsedCSR:
  "marshal_fields (reflect_CIEPSRequest (req\<lparr>ParsedCSR := p\<rparr>))
     = marshal_fields (reflect_CIEPSRequest req)"
proof -
  have split: "reflect_CIEPSRequest r
      = take 7 (reflect_CIEPSRequest r)
        @ (''ParsedCSR'', ''-'', RPtr (map_option OCertificateRequest (ParsedCSR r))) # []"
    for r :: "'a CIEPSRequest"
    by (simp add: reflect_CIEPSRequest_def)
  have same: "take 7 (reflect_CIEPSRequest (req\<lparr>ParsedCSR := p\<rparr>))
      = take 7 (reflect_CIEPSRequest req)"
    by (simp add: reflect_CIEPSRequest_def)
  show ?thesis
    by (subst split, subst (2) split) (simp only: marshal_fields_dash same)
qed

lemma marshal_CIEPSResponse_ParsedCertificate:
  "marshal_fields (reflect_CIEPSResponse (c\<lparr>ParsedCertificate := q\<rparr>))
     = marshal_fields (reflect_CIEPSResponse c)"
proof -
  have split: "reflect_CIEPSResponse r
      = take 4 (reflect_CIEPSResponse r)
        @ (''ParsedCertificate'', ''-'', RPtr (map_option OCertificate (ParsedCertificate r)))
        # drop 5 (reflect_CIEPSResponse r)"
    for r :: CIEPSResponse
    by (simp add: reflect_CIEPSResponse_def)
  have same: "take 4 (reflect_CIEPSResponse (c\<lparr>ParsedCertificate := q\<rparr>))
      = take 4 (reflect_CIEPSResponse c)"
    "drop 5 (reflect_CIEPSResponse (c\<lparr>ParsedCertificate := q\<rparr>))
      = drop 5 (reflect_CIEPSResponse c)"
    by (simp_all add: reflect_CIEPSResponse_def)
  show ?thesis
    by (subst split, subst (2) split) (simp only: marshal_fields_dash same)
qed

lemma unmarshal_example_request:
  "(case unmarshal_members False example_dec
           [(''request_uuid'', JString ''77aa''), (''ParsedCSR'', JString ''x'')]
           (reflect_CIEPSRequest (example_request Map.empty)) of
      Inl e \<Rightarrow> False
    | Inr fs' \<Rightarrow> True)"
  by code_simp

lemma unmarshal_example_response:
  "(case unmarshal_members True example_dec
           [(''request_uuid'', JString ''77aa''), (''store_certificate'', JBool False)]
           (reflect_CIEPSResponse (example_response None) :: unit fields) of
      Inl e \<Rightarrow> False
    | Inr fs' \<Rightarrow> True)"
  by code_simp

section \<open>The Go encoder writes the reference encoding\<close>

lemma alphabet_rfc: "\<forall>i \<in> set [0..<64]. encodeStd ! i = rfc4648_char i"
  by code_simp

lemma sextet_unat:
  "unat (drop_bit k (V :: 32 word) AND 0x3F) = unat V div 2 ^ k mod 64"
proof -
  have m: "(0x3F :: 32 word) = mask 6" by (simp add: mask_eq_exp_minus_1)
  have "unat (take_bit 6 (drop_bit k V)) = take_bit 6 (drop_bit k (unat V))"
    by (simp only: unsigned_take_bit_eq unat_drop_bit_eq)
  then show ?thesis
    by (simp only: m take_bit_eq_mask [symmetric]) (simp add: take_bit_eq_mod drop_bit_eq_div)
qed

lemma unat_byte_lt: "unat (a :: byte) < 256"
  using unsigned_less [of a, where 'a = nat] by simp

lemma val_unat3:
  "unat (push_bit 16 (ucast a) OR push_bit 8 (ucast b) OR ucast c :: 32 word)
     = unat a * 65536 + unat b * 256 + unat c" for a b c :: byte
proof -
  have d1: "push_bit 8 (ucast b) + (ucast c :: 32 word) = push_bit 8 (ucast b) OR ucast c"
    by (rule disjunctive_add) (auto simp: bit_simps dest: byte_bit)
  have d2: "push_bit 16 (ucast a) + (push_bit 8 (ucast b) OR ucast c :: 32 word)
      = push_bit 16 (ucast a) OR (push_bit 8 (ucast b) OR ucast c)"
    by (rule disjunctive_add) (auto simp: bit_simps dest: byte_bit)
  have u: "unat (ucast x :: 32 word) = unat x" for x :: byte
    using unat_byte_lt [of x] by (simp add: unsigned_ucast_eq take_bit_nat_eq_self)
  have "(push_bit 16 (ucast a) OR push_bit 8 (ucast b) OR ucast c :: 32 word)
      = push_bit 16 (ucast a) + (push_bit 8 (ucast b) + ucast c)"
    by (simp only: or.assoc d1 d2)
  then have "unat (push_bit 16 (ucast a) OR push_bit 8 (ucast b) OR ucast c :: 32 word)
      = (unat (ucast a :: 32 word) * 65536 + (unat (ucast b :: 32 word) * 256 + unat (ucast c :: 32 word))) mod 2 ^ 32"
    by (simp add: push_bit_eq_mult unat_word_ariths mod_simps)
  then have "unat (push_bit 16 (ucast a) OR push_bit 8 (ucast b) OR ucast c :: 32 word)
      = (unat a * 65536 + unat b * 256 + unat c) mod 2 ^ 32"
    by (simp only: u add.assoc)
  moreover have "unat a * 65536 + unat b * 256 + unat c < 2 ^ 32"
    using unat_byte_lt [of a] unat_byte_lt [of b] unat_byte_lt [of c] by simp
  ultimately show ?thesis by simp
qed

lemma val_unat2:
  "unat (push_bit 16 (ucast a) OR push_bit 8 (ucast b) :: 32 word)
     = unat a * 65536 + unat b * 256" for a b :: byte
  using val_unat3 [of a b 0] by simp

lemma val_unat1:
  "unat (push_bit 16 (ucast a) :: 32 word) = unat a * 65536" for a :: byte
  using val_unat3 [of a 0 0] by simp

lemma enc_at_rfc: "enc_at V k = rfc4648_char (unat V div 2 ^ k mod 64)"
proof -
  have "unat V div 2 ^ k mod 64 \<in> set [0..<64]" by simp
  from bspec [OF alphabet_rfc this] show ?thesis
    by (simp only: enc_at_def sextet_unat)
qed

lemma b64_Encode_rfc4648: "b64_Encode bs = rfc4648_encode bs"
proof (induction bs rule: b64_Encode.induct)
  case (1 a b c src)
  have "unat a * 65536 + unat b * 256 + unat c < 16777216"
    using unat_byte_lt [of a] unat_byte_lt [of b] unat_byte_lt [of c] by simp
  then have "(unat a * 65536 + unat b * 256 + unat c) div 262144 mod 64
      = (unat a * 65536 + unat b * 256 + unat c) div 262144"
    by simp
  with "1.IH" show ?case
    by (simp add: Let_def enc_at_rfc val_unat3)
next
  case (2 a b)
  define n where "n = (unat a * 256 + unat b) * 4"
  have lt: "n < 262144"
    using unat_byte_lt [of a] unat_byte_lt [of b] by (simp add: n_def)
  have v: "unat a * 65536 + unat b * 256 = n * 64"
    by (simp add: n_def)
  have s1: "n div 4096 mod 64 = n div 4096"
    using lt by simp
  have "b64_Encode [a, b]
      = [rfc4648_char (n div 4096), rfc4648_char (n div 64 mod 64), rfc4648_char (n mod 64),
         CHR ''='']"
    by (simp add: Let_def enc_at_rfc val_unat2 padChar_def v s1)
  then show ?case by (simp add: Let_def n_def)
next
  case (3 a)
  define m where "m = unat a * 16"
  have lt: "m < 4096"
    using unat_byte_lt [of a] by (simp add: m_def)
  have v: "unat a * 65536 = m * 4096"
    by (simp add: m_def)
  have s1: "m div 64 mod 64 = m div 64"
    using lt by simp
  have "b64_Encode [a]
      = [rfc4648_char (m div 64), rfc4648_char (m mod 64), CHR ''='', CHR ''='']"
    by (simp add: Let_def enc_at_rfc val_unat1 padChar_def v s1)
  then show ?case by (simp add: Let_def m_def)
next
  case 4
  show ?case by simp
qed

lemma rfc7468_lines_Nil: "rfc7468_lines [] = []"
  by (subst rfc7468_lines.simps) simp

lemma lineBreaker_rfc7468:
  "lineBreaker s = concat (map (\<lambda>l. l @ [CHR 0x0A]) (rfc7468_lines s))"
proof (induction s rule: lineBreaker.induct)
  case (1 b)
  show ?case
  proof (cases "length b < pemLineLength")
    case True
    show ?thesis
    proof (cases "b = []")
      case True
      then show ?thesis by (simp add: lineBreaker_Nil rfc7468_lines_Nil)
    next
      case False
      have "lineBreaker b = b @ nl"
        using True False by (subst lineBreaker.simps) simp
      moreover have "rfc7468_lines b = [b]"
        using True False
        by (subst rfc7468_lines.simps) (simp add: pemLineLength_def rfc7468_lines_Nil)
      ultimately show ?thesis by (simp add: nl_def)
    qed
  next
    case False
    then have ne: "b \<noteq> []" by (auto simp: pemLineLength_def)
    have "lineBreaker b = take pemLineLength b @ nl @ lineBreaker (drop pemLineLength b)"
      using False by (subst lineBreaker.simps) simp
    moreover have "rfc7468_lines b = take 64 b # rfc7468_lines (drop 64 b)"
      using ne by (subst rfc7468_lines.simps) simp
    ultimately show ?thesis
      using "1.IH" [OF False] by (simp add: nl_def pemLineLength_def)
  qed
qed

lemma pem_EncodeToMemory_rfc7468: "pem_EncodeToMemory label der = rfc7468_encode label der"
  by (simp add: pem_EncodeToMemory_def rfc7468_encode_def lineBreaker_rfc7468
        b64_Encode_rfc4648 nl_def)





lemma b64_Encode_example: "b64_Encode [0x30, 0x03, 0x02, 0x01, 0x00] = ''MAMCAQA=''"
  by code_simp

lemma example_certificate_rfc7468:
  "rfc7468_lines (rfc4648_encode [0x30, 0x03, 0x02, 0x01, 0x00]) = [''MAMCAQA='']"
proof -
  have "rfc7468_lines ''MAMCAQA='' = [''MAMCAQA='']"
    by (subst rfc7468_lines.simps) (simp add: rfc7468_lines_Nil)
  then show ?thesis
    by (simp only: b64_Encode_rfc4648 [symmetric] b64_Encode_example)
qed

section \<open>The claims about \<^verbatim>\<open>ParseUserCSR\<close> and \<^verbatim>\<open>MarshalCertificate\<close>\<close>

text \<open>
  Claim C2. When the request's \<^verbatim>\<open>UserRequestKV\<close> has no \<^verbatim>\<open>csr\<close> key, or the value
  under it is not a string, or it is the empty string, \<^verbatim>\<open>ParseUserCSR\<close> returns an
  error: a different one in each of the three cases (the second names the type found),
  and the request is left as it was, \<^verbatim>\<open>ParsedCSR\<close> included.
\<close>

theorem ParseUserCSR_csr_attribute_errors:
  "(UserRequestKV req ''csr'' = None \<longrightarrow> ParseUserCSR p req = (Some MissingCSR, req))
   \<and> (\<forall>v. UserRequestKV req ''csr'' = Some v \<and> \<not> is_GoString v \<longrightarrow>
         ParseUserCSR p req = (Some (UnexpectedCSRType (go_type_name v)), req))
   \<and> (UserRequestKV req ''csr'' = Some (GoString []) \<longrightarrow> ParseUserCSR p req = (Some EmptyCSR, req))
   \<and> MissingCSR \<noteq> EmptyCSR \<and> MissingCSR \<noteq> UnexpectedCSRType t \<and> EmptyCSR \<noteq> UnexpectedCSRType t"
  by (auto simp: ParseUserCSR_def split: go_value.splits)

theorem ParseUserCSR_csr_attribute_errors_witness:
  "UserRequestKV (example_request Map.empty) ''csr'' = None
   \<and> ParseUserCSR example_parser (example_request Map.empty)
       = (Some MissingCSR, example_request Map.empty)
   \<and> UserRequestKV (example_request [''csr'' \<mapsto> GoInt 5]) ''csr'' = Some (GoInt 5)
   \<and> \<not> is_GoString (GoInt 5)
   \<and> ParseUserCSR example_parser (example_request [''csr'' \<mapsto> GoInt 5])
       = (Some (UnexpectedCSRType ''int''), example_request [''csr'' \<mapsto> GoInt 5])
   \<and> UserRequestKV (example_request [''csr'' \<mapsto> GoString []]) ''csr'' = Some (GoString [])
   \<and> ParseUserCSR example_parser (example_request [''csr'' \<mapsto> GoString []])
       = (Some EmptyCSR, example_request [''csr'' \<mapsto> GoString []])"
proof -
  have a: "UserRequestKV (example_request Map.empty) ''csr'' = None"
    by (simp add: example_request_def)
  have b: "UserRequestKV (example_request [''csr'' \<mapsto> GoInt 5]) ''csr'' = Some (GoInt 5)
           \<and> \<not> is_GoString (GoInt 5)"
    by (simp add: example_request_def)
  have c: "UserRequestKV (example_request [''csr'' \<mapsto> GoString []]) ''csr'' = Some (GoString [])"
    by (simp add: example_request_def)
  show ?thesis
    using a b c
      ParseUserCSR_csr_attribute_errors [of "example_request Map.empty" example_parser]
      ParseUserCSR_csr_attribute_errors [of "example_request [''csr'' \<mapsto> GoInt 5]" example_parser]
      ParseUserCSR_csr_attribute_errors [of "example_request [''csr'' \<mapsto> GoString []]" example_parser]
    by simp
qed

text \<open>
  Claim C3. For a non-empty string \<^verbatim>\<open>csr\<close>, \<^verbatim>\<open>ParseUserCSR\<close> runs \<^verbatim>\<open>pem.Decode\<close>
  once. If bytes are left after the block, the call returns the error that names their
  number. If no block could be decoded, the call returns an error as well: \<^verbatim>\<open>pem.Decode\<close>
  then hands back the whole input as the rest, so the error names the length of the
  whole value. In particular, when the value is an encoded block followed by further
  bytes, the error names the number of those further bytes.
\<close>

theorem ParseUserCSR_trailing_data_or_no_block:
  assumes "UserRequestKV req ''csr'' = Some (GoString csrValue)" and "csrValue \<noteq> []"
  shows "(snd (pem_Decode csrValue) \<noteq> [] \<longrightarrow>
            ParseUserCSR p req = (Some (TrailingData (length (snd (pem_Decode csrValue)))), req))
       \<and> (fst (pem_Decode csrValue) = None \<longrightarrow>
            ParseUserCSR p req = (Some (TrailingData (length csrValue)), req))
       \<and> (\<forall>ty der extra.
            csrValue = pem_EncodeToMemory ty der @ extra \<and> CHR 0x0A \<notin> set ty \<and> der \<noteq> []
              \<and> extra \<noteq> [] \<longrightarrow>
            ParseUserCSR p req = (Some (TrailingData (length extra)), req))"
proof (intro conjI allI impI)
  assume "snd (pem_Decode csrValue) \<noteq> []"
  with assms show "ParseUserCSR p req = (Some (TrailingData (length (snd (pem_Decode csrValue)))), req)"
    by (simp add: ParseUserCSR_def Let_def)
next
  assume "fst (pem_Decode csrValue) = None"
  with assms pem_Decode_None [of csrValue]
  show "ParseUserCSR p req = (Some (TrailingData (length csrValue)), req)"
    by (simp add: ParseUserCSR_def Let_def)
next
  fix ty der extra
  assume h: "csrValue = pem_EncodeToMemory ty der @ extra \<and> CHR 0x0A \<notin> set ty \<and> der \<noteq> []
               \<and> extra \<noteq> []"
  then have "pem_Decode csrValue = (Some \<lparr>Type = ty, Headers = [], Bytes = der\<rparr>, extra)"
    by (simp add: pem_roundtrip)
  with assms h show "ParseUserCSR p req = (Some (TrailingData (length extra)), req)"
    by (simp add: ParseUserCSR_def Let_def)
qed

theorem ParseUserCSR_trailing_data_or_no_block_witness:
  "UserRequestKV (example_request [''csr'' \<mapsto> GoString (example_csr @ ''x'')]) ''csr''
     = Some (GoString (example_csr @ ''x''))
   \<and> example_csr @ ''x'' \<noteq> []
   \<and> snd (pem_Decode (example_csr @ ''x'')) \<noteq> []
   \<and> example_csr @ ''x'' = pem_EncodeToMemory ''CERTIFICATE REQUEST'' [0x30, 0x00] @ ''x''
   \<and> CHR 0x0A \<notin> set ''CERTIFICATE REQUEST''
   \<and> ParseUserCSR example_parser (example_request [''csr'' \<mapsto> GoString (example_csr @ ''x'')])
       = (Some (TrailingData 1), example_request [''csr'' \<mapsto> GoString (example_csr @ ''x'')])
   \<and> UserRequestKV (example_request [''csr'' \<mapsto> GoString ''MAA='']) ''csr''
     = Some (GoString ''MAA='')
   \<and> ''MAA='' \<noteq> []
   \<and> fst (pem_Decode ''MAA='') = None
   \<and> ParseUserCSR example_parser (example_request [''csr'' \<mapsto> GoString ''MAA=''])
       = (Some (TrailingData 4), example_request [''csr'' \<mapsto> GoString ''MAA=''])"
proof -
  have a: "UserRequestKV (example_request [''csr'' \<mapsto> GoString (example_csr @ ''x'')]) ''csr''
             = Some (GoString (example_csr @ ''x''))"
    by (simp add: example_request_def)
  have b: "UserRequestKV (example_request [''csr'' \<mapsto> GoString ''MAA='']) ''csr''
             = Some (GoString ''MAA='')"
    by (simp add: example_request_def)
  have c: "example_csr @ ''x'' \<noteq> []" by simp
  have d: "''MAA='' \<noteq> []" by simp
  have e: "example_csr @ ''x'' = pem_EncodeToMemory ''CERTIFICATE REQUEST'' [0x30, 0x00] @ ''x''"
    by code_simp
  have f: "CHR 0x0A \<notin> set ''CERTIFICATE REQUEST''" by simp
  show ?thesis
    using a b e f
      ParseUserCSR_trailing_data_or_no_block [OF a c, of example_parser]
      ParseUserCSR_trailing_data_or_no_block [OF b d, of example_parser]
    by (simp add: pem_Decode_example_csr_trailing pem_Decode_no_block)
qed



text \<open>
  Claim C8. \<^verbatim>\<open>ParseUserCSR\<close> changes no field of the request other than
  \<^verbatim>\<open>ParsedCSR\<close>, and when it returns an error the request is unchanged altogether.
\<close>

theorem ParseUserCSR_frame:
  assumes "ParseUserCSR p req = (err, req')"
  shows "req' = req\<lparr>ParsedCSR := ParsedCSR req'\<rparr> \<and> (err \<noteq> None \<longrightarrow> req' = req)"
  using assms
  by (auto simp: ParseUserCSR_def Let_def split: option.splits go_value.splits if_splits sum.splits)

theorem ParseUserCSR_frame_witness:
  "ParseUserCSR example_parser (example_request [''csr'' \<mapsto> GoString []])
     = (Some EmptyCSR, example_request [''csr'' \<mapsto> GoString []])
   \<and> Some EmptyCSR \<noteq> None
   \<and> example_request [''csr'' \<mapsto> GoString []]
       = (example_request [''csr'' \<mapsto> GoString []])
           \<lparr>ParsedCSR := ParsedCSR (example_request [''csr'' \<mapsto> GoString []])\<rparr>"
proof -
  have a: "ParseUserCSR example_parser (example_request [''csr'' \<mapsto> GoString []])
             = (Some EmptyCSR, example_request [''csr'' \<mapsto> GoString []])"
    by (simp add: ParseUserCSR_def example_request_def)
  show ?thesis
    using a ParseUserCSR_frame [OF a] by simp
qed

text \<open>
  Claim C5. \<^verbatim>\<open>MarshalCertificate\<close> returns an error exactly when there is no parsed
  certificate or its raw bytes are empty. Otherwise it succeeds, and the \<^verbatim>\<open>Certificate\<close>
  field becomes one PEM block as RFC 7468 writes it: the BEGIN line of type CERTIFICATE,
  the base64 text (RFC 4648) of the raw bytes in lines of 64 characters, and the END line.
  Read back, the field gives one block of type CERTIFICATE whose bytes are the raw bytes,
  with nothing after it.
\<close>

theorem MarshalCertificate_result:
  "(fst (MarshalCertificate c) \<noteq> None \<longleftrightarrow>
      (ParsedCertificate c = None \<or> (\<exists>cert. ParsedCertificate c = Some cert \<and> Raw cert = [])))
   \<and> (\<forall>cert. ParsedCertificate c = Some cert \<and> Raw cert \<noteq> [] \<longrightarrow>
         MarshalCertificate c =
           (None, c\<lparr>Certificate := ''-----BEGIN CERTIFICATE-----'' @ [CHR 0x0A]
                        @ concat (map (\<lambda>l. l @ [CHR 0x0A])
                                    (rfc7468_lines (rfc4648_encode (Raw cert))))
                        @ ''-----END CERTIFICATE-----'' @ [CHR 0x0A]\<rparr>)
         \<and> pem_Decode (Certificate (snd (MarshalCertificate c)))
             = (Some \<lparr>Type = ''CERTIFICATE'', Headers = [], Bytes = Raw cert\<rparr>, []))"
proof (intro conjI allI impI)
  show "fst (MarshalCertificate c) \<noteq> None \<longleftrightarrow>
      (ParsedCertificate c = None \<or> (\<exists>cert. ParsedCertificate c = Some cert \<and> Raw cert = []))"
    using pem_EncodeToMemory_nonempty [of "''CERTIFICATE''"]
    by (auto simp: MarshalCertificate_def Let_def split: option.splits)
next
  fix cert
  assume h: "ParsedCertificate c = Some cert \<and> Raw cert \<noteq> []"
  have enc: "pem_EncodeToMemory ''CERTIFICATE'' (Raw cert)
      = ''-----BEGIN CERTIFICATE-----'' @ [CHR 0x0A]
        @ concat (map (\<lambda>l. l @ [CHR 0x0A]) (rfc7468_lines (rfc4648_encode (Raw cert))))
        @ ''-----END CERTIFICATE-----'' @ [CHR 0x0A]"
    by (simp add: pem_EncodeToMemory_rfc7468 rfc7468_encode_def)
  have m: "MarshalCertificate c
      = (None, c\<lparr>Certificate := pem_EncodeToMemory ''CERTIFICATE'' (Raw cert)\<rparr>)"
    using h pem_EncodeToMemory_nonempty [of "''CERTIFICATE''" "Raw cert"]
    by (simp add: MarshalCertificate_def Let_def)
  show "MarshalCertificate c =
           (None, c\<lparr>Certificate := ''-----BEGIN CERTIFICATE-----'' @ [CHR 0x0A]
                        @ concat (map (\<lambda>l. l @ [CHR 0x0A])
                                    (rfc7468_lines (rfc4648_encode (Raw cert))))
                        @ ''-----END CERTIFICATE-----'' @ [CHR 0x0A]\<rparr>)"
    unfolding m enc ..
  have "pem_Decode (pem_EncodeToMemory ''CERTIFICATE'' (Raw cert) @ [])
          = (Some \<lparr>Type = ''CERTIFICATE'', Headers = [], Bytes = Raw cert\<rparr>, [])"
    by (rule pem_roundtrip) (use h in simp_all)
  then show "pem_Decode (Certificate (snd (MarshalCertificate c)))
             = (Some \<lparr>Type = ''CERTIFICATE'', Headers = [], Bytes = Raw cert\<rparr>, [])"
    unfolding m by simp
qed

theorem MarshalCertificate_result_witness:
  "ParsedCertificate (example_response (Some \<lparr>Raw = [0x30, 0x03, 0x02, 0x01, 0x00]\<rparr>))
     = Some \<lparr>Raw = [0x30, 0x03, 0x02, 0x01, 0x00]\<rparr>
   \<and> Raw \<lparr>Raw = [0x30, 0x03, 0x02, 0x01, 0x00]\<rparr> \<noteq> []
   \<and> MarshalCertificate (example_response (Some \<lparr>Raw = [0x30, 0x03, 0x02, 0x01, 0x00]\<rparr>))
       = (None, (example_response (Some \<lparr>Raw = [0x30, 0x03, 0x02, 0x01, 0x00]\<rparr>))
                  \<lparr>Certificate := ''-----BEGIN CERTIFICATE-----'' @ [CHR 0x0A] @ ''MAMCAQA=''
                                   @ [CHR 0x0A] @ ''-----END CERTIFICATE-----'' @ [CHR 0x0A]\<rparr>)
   \<and> ParsedCertificate (example_response None) = None
   \<and> fst (MarshalCertificate (example_response None)) \<noteq> None"
proof -
  have a: "ParsedCertificate (example_response (Some \<lparr>Raw = [0x30, 0x03, 0x02, 0x01, 0x00]\<rparr>))
     = Some \<lparr>Raw = [0x30, 0x03, 0x02, 0x01, 0x00]\<rparr>
     \<and> Raw \<lparr>Raw = [0x30, 0x03, 0x02, 0x01, 0x00]\<rparr> \<noteq> []"
    by (simp add: example_response_def)
  have b: "ParsedCertificate (example_response None) = None"
    by (simp add: example_response_def)
  note t = MarshalCertificate_result
    [of "example_response (Some \<lparr>Raw = [0x30, 0x03, 0x02, 0x01, 0x00]\<rparr>)",
     THEN conjunct2, rule_format, OF a, THEN conjunct1]
  have c: "MarshalCertificate (example_response (Some \<lparr>Raw = [0x30, 0x03, 0x02, 0x01, 0x00]\<rparr>))
       = (None, (example_response (Some \<lparr>Raw = [0x30, 0x03, 0x02, 0x01, 0x00]\<rparr>))
                  \<lparr>Certificate := ''-----BEGIN CERTIFICATE-----'' @ [CHR 0x0A] @ ''MAMCAQA=''
                                   @ [CHR 0x0A] @ ''-----END CERTIFICATE-----'' @ [CHR 0x0A]\<rparr>)"
    unfolding t by (simp add: example_certificate_rfc7468 del: rfc4648_encode.simps)
  have d: "fst (MarshalCertificate (example_response None)) \<noteq> None"
    using MarshalCertificate_result [of "example_response None", THEN conjunct1] b by simp
  from a b c d show ?thesis by (intro conjI) simp_all
qed

text \<open>
  Claim C10. \<^verbatim>\<open>MarshalCertificate\<close> changes no field of the response other than
  \<^verbatim>\<open>Certificate\<close>, and when it returns an error the response is unchanged altogether.
\<close>

theorem MarshalCertificate_frame:
  assumes "MarshalCertificate c = (err, c')"
  shows "c' = c\<lparr>Certificate := Certificate c'\<rparr> \<and> (err \<noteq> None \<longrightarrow> c' = c)"
  using assms
  by (auto simp: MarshalCertificate_def Let_def split: option.splits if_splits)

theorem MarshalCertificate_frame_witness:
  "MarshalCertificate (example_response None) = (Some NoCertificatePresent, example_response None)
   \<and> Some NoCertificatePresent \<noteq> None
   \<and> example_response None
       = (example_response None)\<lparr>Certificate := Certificate (example_response None)\<rparr>"
proof -
  have a: "MarshalCertificate (example_response None)
             = (Some NoCertificatePresent, example_response None)"
    by (simp add: MarshalCertificate_def example_response_def)
  show ?thesis
    using a MarshalCertificate_frame [OF a] by simp
qed

text \<open>
  Claim C6. Round trip: when the parsed certificate has non-empty raw bytes,
  \<^verbatim>\<open>MarshalCertificate\<close> succeeds, and \<^verbatim>\<open>pem.Decode\<close> on the \<^verbatim>\<open>Certificate\<close> string
  it wrote yields one block of type CERTIFICATE, without headers, whose bytes are the raw
  bytes of the parsed certificate, and no input is left after the block.
\<close>

theorem MarshalCertificate_roundtrip:
  assumes "ParsedCertificate c = Some cert" and "Raw cert \<noteq> []"
  shows "fst (MarshalCertificate c) = None
       \<and> pem_Decode (Certificate (snd (MarshalCertificate c)))
           = (Some \<lparr>Type = ''CERTIFICATE'', Headers = [], Bytes = Raw cert\<rparr>, [])"
proof -
  have "pem_Decode (pem_EncodeToMemory ''CERTIFICATE'' (Raw cert) @ [])
          = (Some \<lparr>Type = ''CERTIFICATE'', Headers = [], Bytes = Raw cert\<rparr>, [])"
    by (rule pem_roundtrip) (use assms(2) in simp_all)
  then show ?thesis
    using assms pem_EncodeToMemory_nonempty [of "''CERTIFICATE''" "Raw cert"]
    by (simp add: MarshalCertificate_def Let_def)
qed

theorem MarshalCertificate_roundtrip_witness:
  "ParsedCertificate (example_response (Some \<lparr>Raw = [0x30, 0x03, 0x02, 0x01, 0x00]\<rparr>))
     = Some \<lparr>Raw = [0x30, 0x03, 0x02, 0x01, 0x00]\<rparr>
   \<and> Raw \<lparr>Raw = [0x30, 0x03, 0x02, 0x01, 0x00]\<rparr> \<noteq> []
   \<and> fst (MarshalCertificate (example_response (Some \<lparr>Raw = [0x30, 0x03, 0x02, 0x01, 0x00]\<rparr>))) = None
   \<and> pem_Decode (Certificate (snd (MarshalCertificate
         (example_response (Some \<lparr>Raw = [0x30, 0x03, 0x02, 0x01, 0x00]\<rparr>)))))
       = (Some \<lparr>Type = ''CERTIFICATE'', Headers = [], Bytes = [0x30, 0x03, 0x02, 0x01, 0x00]\<rparr>, [])"
proof -
  have a: "ParsedCertificate (example_response (Some \<lparr>Raw = [0x30, 0x03, 0x02, 0x01, 0x00]\<rparr>))
             = Some \<lparr>Raw = [0x30, 0x03, 0x02, 0x01, 0x00]\<rparr>"
    by (simp add: example_response_def)
  have b: "Raw \<lparr>Raw = [0x30, 0x03, 0x02, 0x01, 0x00]\<rparr> \<noteq> []"
    by simp
  show ?thesis
    using a b MarshalCertificate_roundtrip [OF a b] by simp
qed

section \<open>The claims about the wire form\<close>

text \<open>
  Claim C1. When the reply of the external service is an object with a member whose name
  is not one of the seven names of the response schema (\<^verbatim>\<open>request_uuid\<close>, \<^verbatim>\<open>error\<close>,
  \<^verbatim>\<open>warnings\<close>, \<^verbatim>\<open>certificate\<close>, \<^verbatim>\<open>issuer_ref\<close>, \<^verbatim>\<open>store_certificate\<close>,
  \<^verbatim>\<open>generate_lease\<close>), decoding it as a \<^verbatim>\<open>CIEPSResponse\<close> fails: the member is not
  ignored.
\<close>

theorem decode_CIEPSResponse_unknown_field:
  assumes "key \<in> fst ` set members" and "key \<notin> set CIEPSResponse_schema"
  shows "\<exists>e. decode_CIEPSResponse dec (JObject members) c = Inl e"
proof -
  have "key \<notin> set (wire_keys (reflect_CIEPSResponse c :: unit fields))"
    using assms(2) by (simp only: wire_keys_CIEPSResponse not_False_eq_True)
  from unmarshal_members_unknown [OF assms(1) this]
  obtain e where "unmarshal_members True dec members (reflect_CIEPSResponse c) = Inl e" ..
  then show ?thesis by (simp add: decode_CIEPSResponse_def)
qed

theorem decode_CIEPSResponse_unknown_field_witness:
  "''admin'' \<in> fst ` set [(''request_uuid'', JString ''6f1c''), (''admin'', JBool True)]
   \<and> ''admin'' \<notin> set CIEPSResponse_schema
   \<and> decode_CIEPSResponse example_dec
         (JObject [(''request_uuid'', JString ''6f1c''), (''admin'', JBool True)])
         (example_response None)
       = Inl (UnknownField ''admin'')"
proof -
  have a: "''admin'' \<in> fst ` set [(''request_uuid'', JString ''6f1c''), (''admin'', JBool True)]"
    by simp
  have b: "''admin'' \<notin> set CIEPSResponse_schema"
    by (simp add: CIEPSResponse_schema_def)
  show ?thesis
    using a b decode_CIEPSResponse_unknown_field [OF a b, of example_dec "example_response None"]
    by (simp add: decode_example_reply_unknown)
qed

text \<open>
  Claim C7. \<^verbatim>\<open>ParsedCSR\<close> and \<^verbatim>\<open>ParsedCertificate\<close> carry the tag \<^verbatim>\<open>-\<close>. So the members
  written for a request or a response do not depend on them and have only the names of
  the wire schema, and reading an object into a request or a response leaves them as they
  were, whether unknown members are disallowed or not.
\<close>

theorem parsed_objects_not_on_the_wire:
  "marshal_fields (reflect_CIEPSRequest (req\<lparr>ParsedCSR := p\<rparr>))
     = marshal_fields (reflect_CIEPSRequest req)
   \<and> marshal_fields (reflect_CIEPSResponse (c\<lparr>ParsedCertificate := q\<rparr>))
     = marshal_fields (reflect_CIEPSResponse c)
   \<and> fst ` set (marshal_fields (reflect_CIEPSRequest req)) \<subseteq> set CIEPSRequest_schema
   \<and> fst ` set (marshal_fields (reflect_CIEPSResponse c)) \<subseteq> set CIEPSResponse_schema
   \<and> (\<forall>fs'. unmarshal_members strict dec members (reflect_CIEPSRequest req) = Inr fs' \<longrightarrow>
         field_value fs' ''ParsedCSR'' = Some (RPtr (map_option OCertificateRequest (ParsedCSR req))))
   \<and> (\<forall>fs'. unmarshal_members strict decr membersr (reflect_CIEPSResponse c) = Inr fs' \<longrightarrow>
         field_value fs' ''ParsedCertificate''
           = Some (RPtr (map_option OCertificate (ParsedCertificate c))))
   \<and> (\<forall>c'. decode_CIEPSResponse dec' j c = Inr c' \<longrightarrow> ParsedCertificate c' = ParsedCertificate c)"
proof (intro conjI allI impI)
  show "marshal_fields (reflect_CIEPSRequest (req\<lparr>ParsedCSR := p\<rparr>))
          = marshal_fields (reflect_CIEPSRequest req)"
    by (rule marshal_CIEPSRequest_ParsedCSR)
  show "marshal_fields (reflect_CIEPSResponse (c\<lparr>ParsedCertificate := q\<rparr>))
          = marshal_fields (reflect_CIEPSResponse c)"
    by (rule marshal_CIEPSResponse_ParsedCertificate)
  show "fst ` set (marshal_fields (reflect_CIEPSRequest req)) \<subseteq> set CIEPSRequest_schema"
    using marshal_fields_subset [of "reflect_CIEPSRequest req"]
    by (simp only: wire_keys_CIEPSRequest)
  show "fst ` set (marshal_fields (reflect_CIEPSResponse c)) \<subseteq> set CIEPSResponse_schema"
    using marshal_fields_subset [of "reflect_CIEPSResponse c"]
    by (simp only: wire_keys_CIEPSResponse)
next
  fix fs'
  assume "unmarshal_members strict dec members (reflect_CIEPSRequest req) = Inr fs'"
  then have "field_value fs' ''ParsedCSR'' = field_value (reflect_CIEPSRequest req) ''ParsedCSR''"
    using skipped_ParsedCSR by (rule unmarshal_members_skipped)
  then show "field_value fs' ''ParsedCSR'' = Some (RPtr (map_option OCertificateRequest (ParsedCSR req)))"
    by (simp only: field_value_ParsedCSR)
next
  fix fs'
  assume "unmarshal_members strict decr membersr (reflect_CIEPSResponse c) = Inr fs'"
  then have "field_value fs' ''ParsedCertificate''
               = field_value (reflect_CIEPSResponse c) ''ParsedCertificate''"
    using skipped_ParsedCertificate by (rule unmarshal_members_skipped)
  then show "field_value fs' ''ParsedCertificate''
               = Some (RPtr (map_option OCertificate (ParsedCertificate c)))"
    by (simp only: field_value_ParsedCertificate)
next
  fix c'
  assume "decode_CIEPSResponse dec' j c = Inr c'"
  then show "ParsedCertificate c' = ParsedCertificate c"
    by (rule decode_CIEPSResponse_ParsedCertificate)
qed

theorem parsed_objects_not_on_the_wire_witness:
  "(case unmarshal_members False example_dec
           [(''request_uuid'', JString ''77aa''), (''ParsedCSR'', JString ''x'')]
           (reflect_CIEPSRequest (example_request Map.empty)) of
      Inl e \<Rightarrow> False
    | Inr fs' \<Rightarrow> field_value fs' ''ParsedCSR'' = Some (RPtr None))
   \<and> (case unmarshal_members True example_dec
           [(''request_uuid'', JString ''77aa''), (''store_certificate'', JBool False)]
           (reflect_CIEPSResponse (example_response None) :: unit fields) of
      Inl e \<Rightarrow> False
    | Inr fs' \<Rightarrow> field_value fs' ''ParsedCertificate'' = Some (RPtr None))
   \<and> decode_CIEPSResponse example_dec example_reply (example_response None)
       = Inr ((example_response None)\<lparr>Warnings := [''short ttl'']\<rparr>)
   \<and> ParsedCertificate ((example_response None)\<lparr>Warnings := [''short ttl'']\<rparr>) = None"
proof -
  obtain fs1 where fs1:
    "unmarshal_members False example_dec
       [(''request_uuid'', JString ''77aa''), (''ParsedCSR'', JString ''x'')]
       (reflect_CIEPSRequest (example_request Map.empty)) = Inr fs1"
    using unmarshal_example_request by (auto split: sum.splits)
  obtain fs2 :: "unit fields" where fs2:
    "unmarshal_members True example_dec
       [(''request_uuid'', JString ''77aa''), (''store_certificate'', JBool False)]
       (reflect_CIEPSResponse (example_response None)) = Inr fs2"
    using unmarshal_example_response by (auto split: sum.splits)
  have p1: "ParsedCSR (example_request Map.empty) = None"
    by (simp add: example_request_def)
  have p2: "ParsedCertificate (example_response None) = None"
    by (simp add: example_response_def)
  note t1 = parsed_objects_not_on_the_wire
    [where req = "example_request Map.empty" and c = "example_response None"
       and strict = False and dec = example_dec
       and members = "[(''request_uuid'', JString ''77aa''), (''ParsedCSR'', JString ''x'')]"
       and dec' = example_dec and j = example_reply]
  note t2 = parsed_objects_not_on_the_wire
    [where c = "example_response None" and strict = True and decr = example_dec
       and membersr = "[(''request_uuid'', JString ''77aa''), (''store_certificate'', JBool False)]"]
  have a: "field_value fs1 ''ParsedCSR'' = Some (RPtr None)"
    using t1 [THEN conjunct2, THEN conjunct2, THEN conjunct2, THEN conjunct2, THEN conjunct1,
              rule_format, OF fs1]
    by (simp add: p1)
  have b: "field_value fs2 ''ParsedCertificate'' = Some (RPtr None)"
    using t2 [THEN conjunct2, THEN conjunct2, THEN conjunct2, THEN conjunct2, THEN conjunct2,
              THEN conjunct1, rule_format, OF fs2]
    by (simp add: p2)
  have c: "ParsedCertificate ((example_response None)\<lparr>Warnings := [''short ttl'']\<rparr>) = None"
    using t1 [THEN conjunct2, THEN conjunct2, THEN conjunct2, THEN conjunct2, THEN conjunct2,
              THEN conjunct2, rule_format, OF decode_example_reply]
    by (simp add: p2)
  show ?thesis
    unfolding fs1 fs2 decode_example_reply sum.case
    using a b c by simp
qed

section \<open>The claim about the dispatcher\<close>






end
